theory Spec2Isabelle
  imports Main "HOL-Library.List_Lexorder"
begin

unbundle bit_operations_syntax

section \<open>The host tree\<close>

text \<open>
  The library walks a DOM tree that it neither builds nor changes.  The tree is modelled
  as a forest of finite trees; a node is named by the index of its tree in the forest and
  by the path of child indices that leads to it from the root of that tree.  Two names
  are the same JavaScript object (\<open>===\<close>) exactly when they are equal.  A text node
  carries its character data and has no children; \<open>Other\<close> stands for every node
  kind that the library does not support (comments, CDATA sections, processing
  instructions, document types), none of which has children.
\<close>

datatype nodeType =
  ELEMENT_NODE | TEXT_NODE | DOCUMENT_NODE | DOCUMENT_FRAGMENT_NODE | OTHER_NODE

datatype dom =
  Element "dom list"
| Text string
| Document "dom list"
| DocumentFragment "dom list"
| Other

type_synonym Node = "nat \<times> nat list"

fun kindOf :: "dom \<Rightarrow> nodeType" where
  "kindOf (Element cs) = ELEMENT_NODE"
| "kindOf (Text s) = TEXT_NODE"
| "kindOf (Document cs) = DOCUMENT_NODE"
| "kindOf (DocumentFragment cs) = DOCUMENT_FRAGMENT_NODE"
| "kindOf Other = OTHER_NODE"

fun childrenOf :: "dom \<Rightarrow> dom list" where
  "childrenOf (Element cs) = cs"
| "childrenOf (Text s) = []"
| "childrenOf (Document cs) = cs"
| "childrenOf (DocumentFragment cs) = cs"
| "childrenOf Other = []"

fun dataLength :: "dom \<Rightarrow> nat" where
  "dataLength (Text s) = length s"
| "dataLength t = 0"

fun subtree :: "dom \<Rightarrow> nat list \<Rightarrow> dom option" where
  "subtree t [] = Some t"
| "subtree t (i # p) =
     (if i < length (childrenOf t) then subtree (childrenOf t ! i) p else None)"

definition lookup :: "dom list \<Rightarrow> Node \<Rightarrow> dom option" where
  "lookup w n = (if fst n < length w then subtree (w ! fst n) (snd n) else None)"

text \<open>A name is a node of the forest when it leads to a subtree.\<close>

definition isNode :: "dom list \<Rightarrow> Node \<Rightarrow> bool" where
  "isNode w n = (lookup w n \<noteq> None)"

definition nodeType :: "dom list \<Rightarrow> Node \<Rightarrow> nodeType" where
  "nodeType w n = (case lookup w n of Some t \<Rightarrow> kindOf t | None \<Rightarrow> OTHER_NODE)"

definition childNodes :: "dom list \<Rightarrow> Node \<Rightarrow> Node list" where
  "childNodes w n =
     (case lookup w n of
        Some t \<Rightarrow> map (\<lambda>i. (fst n, snd n @ [i])) [0..<length (childrenOf t)]
      | None \<Rightarrow> [])"

definition textLength :: "dom list \<Rightarrow> Node \<Rightarrow> nat" where
  "textLength w n = (case lookup w n of Some t \<Rightarrow> dataLength t | None \<Rightarrow> 0)"

definition parentNode :: "Node \<Rightarrow> Node option" where
  "parentNode n = (if snd n = [] then None else Some (fst n, butlast (snd n)))"

text \<open>\<open>xs[i]\<close> of JavaScript: \<open>undefined\<close> outside the range of the array.\<close>

definition item :: "'a list \<Rightarrow> int \<Rightarrow> 'a option" where
  "item xs i = (if 0 \<le> i \<and> i < int (length xs) then Some (xs ! nat i) else None)"

text \<open>\<open>Array.prototype.indexOf\<close>: the first index holding the element, \<open>-1\<close> if none.\<close>

fun indexOf :: "'a list \<Rightarrow> 'a \<Rightarrow> int" where
  "indexOf [] el = - 1"
| "indexOf (x # xs) el =
     (if x = el then 0 else (let i = indexOf xs el in if i < 0 then - 1 else i + 1))"

text \<open>
  \<open>compareDocumentPosition\<close> as the DOM standard defines it, for the node \<open>a\<close> it is
  called on and the argument \<open>b\<close>: a bit mask.  Nodes of different trees are
  disconnected, and the standard then asks for a consistent, implementation-specific
  order (here the order of the trees in the forest).
\<close>

definition DOCUMENT_POSITION_DISCONNECTED :: nat where
  "DOCUMENT_POSITION_DISCONNECTED = 1"
definition DOCUMENT_POSITION_PRECEDING :: nat where
  "DOCUMENT_POSITION_PRECEDING = 2"
definition DOCUMENT_POSITION_FOLLOWING :: nat where
  "DOCUMENT_POSITION_FOLLOWING = 4"
definition DOCUMENT_POSITION_CONTAINS :: nat where
  "DOCUMENT_POSITION_CONTAINS = 8"
definition DOCUMENT_POSITION_CONTAINED_BY :: nat where
  "DOCUMENT_POSITION_CONTAINED_BY = 16"
definition DOCUMENT_POSITION_IMPLEMENTATION_SPECIFIC :: nat where
  "DOCUMENT_POSITION_IMPLEMENTATION_SPECIFIC = 32"

fun pathPosition :: "nat list \<Rightarrow> nat list \<Rightarrow> nat" where
  "pathPosition [] [] = 0"
| "pathPosition [] (j # q) = DOCUMENT_POSITION_CONTAINED_BY + DOCUMENT_POSITION_FOLLOWING"
| "pathPosition (i # p) [] = DOCUMENT_POSITION_CONTAINS + DOCUMENT_POSITION_PRECEDING"
| "pathPosition (i # p) (j # q) =
     (if i = j then pathPosition p q
      else if j < i then DOCUMENT_POSITION_PRECEDING
      else DOCUMENT_POSITION_FOLLOWING)"

definition compareDocumentPosition :: "Node \<Rightarrow> Node \<Rightarrow> nat" where
  "compareDocumentPosition a b =
     (if fst a \<noteq> fst b then
        DOCUMENT_POSITION_DISCONNECTED + DOCUMENT_POSITION_IMPLEMENTATION_SPECIFIC +
        (if fst b < fst a then DOCUMENT_POSITION_PRECEDING else DOCUMENT_POSITION_FOLLOWING)
      else pathPosition (snd a) (snd b))"

section \<open>Errors\<close>

text \<open>
  The four error classes of the library, and one constructor for each plain \<open>Error\<close>
  it throws: a negative offset, a node without parent, an unsupported node type, and
  the internal errors that the source marks as unreachable.  \<open>TypeError\<close> is what
  JavaScript raises when a property of \<open>null\<close> is read.
\<close>

datatype error =
  NegativeOffset
| NoParent
| UnsupportedNodeType
| ComparingDisconnectedNodes
| CannotEscapeIrrelevantNode
| ReversedRangeError
| DOMSpaceScopeError
| InternalError
| TypeError

definition bindE :: "error + 'a \<Rightarrow> ('a \<Rightarrow> error + 'b) \<Rightarrow> error + 'b" where
  "bindE m f = (case m of Inl e \<Rightarrow> Inl e | Inr x \<Rightarrow> f x)"

section \<open>Locations\<close>

text \<open>
  A location is a node and an offset.  The constructor refuses a negative offset and the
  fields are read-only, so the offset of a location is a natural number.
\<close>

record DOMLoc =
  node :: Node
  offset :: nat

definition DOMLoc_new :: "Node \<Rightarrow> int \<Rightarrow> error + DOMLoc" where
  "DOMLoc_new n off =
     (if off < 0 then Inl NegativeOffset else Inr \<lparr>node = n, offset = nat off\<rparr>)"

definition makePointingTo :: "dom list \<Rightarrow> Node \<Rightarrow> error + DOMLoc" where
  "makePointingTo w n =
     (case parentNode n of
        None \<Rightarrow> Inl NoParent
      | Some parent \<Rightarrow> DOMLoc_new parent (indexOf (childNodes w parent) n))"

definition normalizedOffset :: "dom list \<Rightarrow> DOMLoc \<Rightarrow> error + nat" where
  "normalizedOffset w loc =
     (case nodeType w (node loc) of
        DOCUMENT_NODE \<Rightarrow>
          (let len = length (childNodes w (node loc))
           in Inr (if offset loc > len then len else offset loc))
      | DOCUMENT_FRAGMENT_NODE \<Rightarrow>
          (let len = length (childNodes w (node loc))
           in Inr (if offset loc > len then len else offset loc))
      | ELEMENT_NODE \<Rightarrow>
          (let len = length (childNodes w (node loc))
           in Inr (if offset loc > len then len else offset loc))
      | TEXT_NODE \<Rightarrow>
          (let len = textLength w (node loc)
           in Inr (if offset loc > len then len else offset loc))
      | OTHER_NODE \<Rightarrow> Inl UnsupportedNodeType)"

definition isNormalized :: "dom list \<Rightarrow> DOMLoc \<Rightarrow> error + bool" where
  "isNormalized w loc = bindE (normalizedOffset w loc) (\<lambda>n. Inr (offset loc = n))"

text \<open>
  Some methods return either the very object they were given or a new one.  \<open>Same\<close> is
  the object passed in (the receiver \<open>this\<close>, or the argument), \<open>Fresh v\<close> a newly
  allocated object with the fields \<open>v\<close>.
\<close>

datatype 'a returned = Same | Fresh 'a

fun deref :: "'a \<Rightarrow> 'a returned \<Rightarrow> 'a" where
  "deref x Same = x"
| "deref x (Fresh v) = v"

definition normalizeOffset :: "dom list \<Rightarrow> DOMLoc \<Rightarrow> error + DOMLoc returned" where
  "normalizeOffset w loc =
     bindE (normalizedOffset w loc) (\<lambda>normalized.
       if normalized = offset loc then Inr Same
       else bindE (DOMLoc_new (node loc) (int normalized)) (\<lambda>l. Inr (Fresh l)))"

text \<open>
  \<open>this === other\<close> implies that the fields agree, so the first disjunct of the source
  adds nothing to the comparison of the fields.
\<close>

definition equals :: "DOMLoc \<Rightarrow> DOMLoc option \<Rightarrow> bool" where
  "equals this other =
     (case other of
        None \<Rightarrow> False
      | Some b \<Rightarrow> node this = node b \<and> offset this = offset b)"

definition pointedCompare :: "dom list \<Rightarrow> Node \<Rightarrow> int \<Rightarrow> Node \<Rightarrow> int" where
  "pointedCompare w n off child =
     (case item (childNodes w n) off of
        None \<Rightarrow> 1
      | Some pointed \<Rightarrow>
          if pointed = child \<or>
             (compareDocumentPosition pointed child AND DOCUMENT_POSITION_FOLLOWING) \<noteq> 0
          then - 1 else 1)"

definition compare :: "dom list \<Rightarrow> DOMLoc \<Rightarrow> DOMLoc \<Rightarrow> error + int" where
  "compare w this other =
     (if equals this (Some other) then Inr 0
      else if node this = node other then
        Inr (if int (offset this) - int (offset other) < 0 then - 1 else 1)
      else
        (let result = compareDocumentPosition (node this) (node other) in
         if (result AND DOCUMENT_POSITION_DISCONNECTED) \<noteq> 0 then
           Inl ComparingDisconnectedNodes
         else if (result AND DOCUMENT_POSITION_FOLLOWING) \<noteq> 0 then
           Inr (if (result AND DOCUMENT_POSITION_CONTAINED_BY) \<noteq> 0
                then pointedCompare w (node this) (int (offset this)) (node other)
                else - 1)
         else if (result AND DOCUMENT_POSITION_PRECEDING) = 0 then Inl InternalError
         else
           Inr (if (result AND DOCUMENT_POSITION_CONTAINS) \<noteq> 0 \<and>
                   pointedCompare w (node other) (int (offset other)) (node this) > 0
                then - 1 else 1)))"

section \<open>Spaces\<close>

record DOMSpace =
  min_loc :: DOMLoc
  max_loc :: DOMLoc
  relevanceTest :: "Node \<Rightarrow> bool"

definition isRelevant :: "dom list \<Rightarrow> DOMSpace \<Rightarrow> Node \<Rightarrow> bool" where
  "isRelevant w sp n =
     ((nodeType w n = ELEMENT_NODE \<or> nodeType w n = TEXT_NODE \<or>
       nodeType w n = DOCUMENT_NODE \<or> nodeType w n = DOCUMENT_FRAGMENT_NODE) \<and>
      relevanceTest sp n)"

text \<open>
  The constructor.  Its parameters are parameter properties, so the fields of the new
  object are set before the body runs; an absent third argument is the test that accepts
  every node.
\<close>

definition DOMSpace_init ::
  "DOMLoc \<Rightarrow> DOMLoc \<Rightarrow> (Node \<Rightarrow> bool) option \<Rightarrow> DOMSpace" where
  "DOMSpace_init mn mx test =
     \<lparr>min_loc = mn, max_loc = mx,
      relevanceTest = (case test of None \<Rightarrow> (\<lambda>n. True) | Some t \<Rightarrow> t)\<rparr>"

definition DOMSpace_new ::
  "dom list \<Rightarrow> DOMLoc \<Rightarrow> DOMLoc \<Rightarrow> (Node \<Rightarrow> bool) option \<Rightarrow> error + DOMSpace" where
  "DOMSpace_new w mn mx test =
     (let this = DOMSpace_init mn mx test
      in if \<not> (isRelevant w this (node mn) \<and> isRelevant w this (node mx)) then
           Inl CannotEscapeIrrelevantNode
         else
           bindE (compare w mx mn) (\<lambda>c.
             if c < 0 then Inl ReversedRangeError else Inr this))"

definition makeSpanningNode ::
  "dom list \<Rightarrow> Node \<Rightarrow> (Node \<Rightarrow> bool) option \<Rightarrow> error + DOMSpace" where
  "makeSpanningNode w n test =
     bindE (DOMLoc_new n 0) (\<lambda>mn.
       bindE (DOMLoc_new n (int (length (childNodes w n)))) (\<lambda>mx.
         DOMSpace_new w mn mx test))"

text \<open>
  \<open>contains\<close> catches the error of a comparison across trees and rethrows any other.
  The second comparison is made only when the first one allows it (\<open>&&\<close>).
\<close>

definition contains :: "dom list \<Rightarrow> DOMSpace \<Rightarrow> DOMLoc \<Rightarrow> error + bool" where
  "contains w sp loc =
     (case (bindE (compare w (min_loc sp) loc) (\<lambda>a.
              if a \<le> 0 then bindE (compare w (max_loc sp) loc) (\<lambda>b. Inr (b \<ge> 0))
              else Inr False)) of
        Inl ex \<Rightarrow> if ex = ComparingDisconnectedNodes then Inr False else Inl ex
      | Inr r \<Rightarrow> Inr r)"

definition containsNode :: "dom list \<Rightarrow> DOMSpace \<Rightarrow> Node \<Rightarrow> error + bool" where
  "containsNode w sp n =
     (if parentNode n \<noteq> None then bindE (makePointingTo w n) (contains w sp)
      else Inr False)"

text \<open>
  \<open>escapeIrrelevantNode\<close>.  The \<open>while\<close> loop climbs from the node of the
  normalized location for as long as the space contains the node it stands on; the
  \<open>for\<close> loop scans what was collected from the topmost node down and stops at the
  first irrelevant one.
\<close>

function collectAncestorsAndSelf ::
  "dom list \<Rightarrow> DOMSpace \<Rightarrow> Node option \<Rightarrow> Node list \<Rightarrow> error + Node list" where
  "collectAncestorsAndSelf w sp None ancestorsAndSelf = Inr ancestorsAndSelf"
| "collectAncestorsAndSelf w sp (Some n) ancestorsAndSelf =
     (case containsNode w sp n of
        Inl ex \<Rightarrow> Inl ex
      | Inr c \<Rightarrow>
          if c then collectAncestorsAndSelf w sp (parentNode n) (ancestorsAndSelf @ [n])
          else Inr ancestorsAndSelf)"
  by pat_completeness auto
termination
  by (relation "measure (\<lambda>(w, sp, n, acc). case n of None \<Rightarrow> 0 | Some m \<Rightarrow> Suc (length (snd m)))")
     (auto simp: parentNode_def)

declare collectAncestorsAndSelf.simps [simp del]

fun scanReversed ::
  "dom list \<Rightarrow> DOMSpace \<Rightarrow> Node option \<Rightarrow> Node list \<Rightarrow> error + DOMLoc option" where
  "scanReversed w sp first [] = Inr None"
| "scanReversed w sp first (candidate # rest) =
     (if \<not> isRelevant w sp candidate then
        (if Some candidate = first then Inl InternalError
         else
           (case parentNode candidate of
              None \<Rightarrow> Inl TypeError
            | Some parent \<Rightarrow>
                bindE (DOMLoc_new parent (indexOf (childNodes w parent) candidate))
                  (\<lambda>l. Inr (Some l))))
      else scanReversed w sp first rest)"

definition escapeIrrelevantNode ::
  "dom list \<Rightarrow> DOMSpace \<Rightarrow> DOMLoc \<Rightarrow> error + DOMLoc returned" where
  "escapeIrrelevantNode w sp location =
     bindE (contains w sp location) (\<lambda>c.
       if \<not> c then Inl DOMSpaceScopeError
       else
         bindE (normalizeOffset w location) (\<lambda>normalized.
           bindE (collectAncestorsAndSelf w sp
                    (Some (node (deref location normalized))) []) (\<lambda>ancestorsAndSelf.
             (let reversed = rev ancestorsAndSelf;
                  first = item reversed 0
              in bindE (scanReversed w sp first reversed) (\<lambda>found.
                   case found of
                     Some l \<Rightarrow> Inr (Fresh l)
                   | None \<Rightarrow> Inr normalized)))))"

text \<open>
  \<open>next\<close> and \<open>previous\<close>.  The result \<open>None\<close> is the \<open>null\<close> of the source.  The
  three container kinds share one branch of the \<open>switch\<close>.
\<close>

definition nextLoc :: "dom list \<Rightarrow> DOMSpace \<Rightarrow> DOMLoc \<Rightarrow> error + DOMLoc option" where
  "nextLoc w sp start =
     bindE (escapeIrrelevantNode w sp start) (\<lambda>escaped.
       (let n = node (deref start escaped);
            off = int (offset (deref start escaped));
            inChildren =
              (case item (childNodes w n) off of
                 None \<Rightarrow> Inr None
               | Some pointedNode \<Rightarrow>
                   bindE (if isRelevant w sp pointedNode then DOMLoc_new pointedNode 0
                          else DOMLoc_new n (off + 1))
                     (\<lambda>l. Inr (Some l)))
        in bindE (case nodeType w n of
                    DOCUMENT_FRAGMENT_NODE \<Rightarrow> inChildren
                  | DOCUMENT_NODE \<Rightarrow> inChildren
                  | ELEMENT_NODE \<Rightarrow> inChildren
                  | TEXT_NODE \<Rightarrow>
                      if off + 1 \<le> int (textLength w n)
                      then bindE (DOMLoc_new n (off + 1)) (\<lambda>l. Inr (Some l))
                      else Inr None
                  | OTHER_NODE \<Rightarrow> Inl InternalError) (\<lambda>loc.
             (case loc of
                Some l \<Rightarrow> bindE (contains w sp l) (\<lambda>c. Inr (if c then Some l else None))
              | None \<Rightarrow>
                  (case parentNode n of
                     None \<Rightarrow> Inr None
                   | Some parent \<Rightarrow>
                       bindE (DOMLoc_new parent (indexOf (childNodes w parent) n + 1)) (\<lambda>l.
                         bindE (contains w sp l) (\<lambda>c.
                           Inr (if c then Some l else None))))))))"

definition previous :: "dom list \<Rightarrow> DOMSpace \<Rightarrow> DOMLoc \<Rightarrow> error + DOMLoc option" where
  "previous w sp start =
     bindE (escapeIrrelevantNode w sp start) (\<lambda>escaped.
       (let n = node (deref start escaped);
            off = int (offset (deref start escaped)) - 1;
            inChildren =
              (case item (childNodes w n) off of
                 None \<Rightarrow> Inr None
               | Some pointedNode \<Rightarrow>
                   bindE (if isRelevant w sp pointedNode then
                            DOMLoc_new pointedNode
                              (if nodeType w pointedNode = TEXT_NODE
                               then int (textLength w pointedNode)
                               else int (length (childNodes w pointedNode)))
                          else DOMLoc_new n off)
                     (\<lambda>l. Inr (Some l)))
        in bindE (case nodeType w n of
                    DOCUMENT_FRAGMENT_NODE \<Rightarrow> inChildren
                  | DOCUMENT_NODE \<Rightarrow> inChildren
                  | ELEMENT_NODE \<Rightarrow> inChildren
                  | TEXT_NODE \<Rightarrow>
                      if off \<ge> 0
                      then bindE (DOMLoc_new n off) (\<lambda>l. Inr (Some l))
                      else Inr None
                  | OTHER_NODE \<Rightarrow> Inl InternalError) (\<lambda>loc.
             (case loc of
                Some l \<Rightarrow> bindE (contains w sp l) (\<lambda>c. Inr (if c then Some l else None))
              | None \<Rightarrow>
                  (case parentNode n of
                     None \<Rightarrow> Inr None
                   | Some parent \<Rightarrow>
                       bindE (DOMLoc_new parent (indexOf (childNodes w parent) n)) (\<lambda>l.
                         bindE (contains w sp l) (\<lambda>c.
                           Inr (if c then Some l else None))))))))"

section \<open>Notions used in the statements\<close>

text \<open>
  The bound of a node is the largest offset that normalization leaves alone: the length of
  the character data of a text node, the number of children of any other node.
\<close>

definition bound :: "dom list \<Rightarrow> Node \<Rightarrow> nat" where
  "bound w n = (if nodeType w n = TEXT_NODE then textLength w n else length (childNodes w n))"

text \<open>
  The key of a location is the path of its node followed by its offset.  Keys are compared
  lexicographically, a proper prefix being smaller.
\<close>

definition key :: "DOMLoc \<Rightarrow> nat list" where
  "key loc = snd (node loc) @ [offset loc]"

definition lexCompare :: "nat list \<Rightarrow> nat list \<Rightarrow> int" where
  "lexCompare x y = (if x = y then 0 else if x < y then - 1 else 1)"

text \<open>
  A location precedes another in document order when both lie in nodes of one tree and
  its key is the smaller one: inside one node the smaller offset comes first, a location
  in a node comes before the locations inside the child at its offset and the children
  after it, and otherwise the order is that of the nodes.
\<close>

definition locBefore :: "DOMLoc \<Rightarrow> DOMLoc \<Rightarrow> bool" where
  "locBefore a b = (fst (node a) = fst (node b) \<and> key a < key b)"

text \<open>
  The last step of \<open>next\<close> and \<open>previous\<close>: the candidate location is returned if the
  space contains it, and \<open>null\<close> is returned otherwise.
\<close>

definition clip :: "dom list \<Rightarrow> DOMSpace \<Rightarrow> DOMLoc \<Rightarrow> error + DOMLoc option" where
  "clip w sp l = Inr (if contains w sp l = Inr True then Some l else None)"

text \<open>
  Ascending from a node in \<open>next\<close>: the candidate is the location in the parent at the
  index of the node plus one; without a parent \<open>null\<close> is returned.
\<close>

definition ascendAfter :: "dom list \<Rightarrow> DOMSpace \<Rightarrow> Node \<Rightarrow> error + DOMLoc option" where
  "ascendAfter w sp n =
     (case parentNode n of
        None \<Rightarrow> Inr None
      | Some parent \<Rightarrow>
          clip w sp \<lparr>node = parent, offset = nat (indexOf (childNodes w parent) n + 1)\<rparr>)"

text \<open>
  Document order is the order of a depth-first, left-to-right walk of a tree: a node comes
  before its children, and the children follow one another with all their descendants.
  \<open>docOrder\<close> lists the paths of a tree in that order; a node precedes another node of
  its tree when its path comes first in that list.
\<close>

lemma size_child: "i < length (childrenOf t) \<Longrightarrow> size (childrenOf t ! i) < size t"
  by (cases t) (auto simp: less_Suc_eq_le size_list_estimation' [OF nth_mem])

function docOrder :: "dom \<Rightarrow> nat list list" where
  "docOrder t =
     [] # concat (map (\<lambda>i. map ((#) i) (docOrder (childrenOf t ! i)))
                    [0..<length (childrenOf t)])"
  by pat_completeness auto
termination
  by (relation "measure size") (auto simp: size_child)

declare docOrder.simps [simp del]

definition precedes :: "dom list \<Rightarrow> Node \<Rightarrow> Node \<Rightarrow> bool" where
  "precedes w a b =
     (fst a = fst b \<and> fst a < length w \<and>
      indexOf (docOrder (w ! fst a)) (snd a) < indexOf (docOrder (w ! fst a)) (snd b))"

text \<open>
  A node is a proper ancestor of another when its path is a proper prefix of the path of
  the other (the first node \<^emph>\<open>contains\<close> the second).
\<close>

definition properAncestor :: "Node \<Rightarrow> Node \<Rightarrow> bool" where
  "properAncestor a b =
     (fst a = fst b \<and> length (snd a) < length (snd b) \<and>
      take (length (snd a)) (snd b) = snd a)"

text \<open>
  The node at the boundary of a space is the deepest node that contains the nodes of both
  endpoints: its path is the longest common prefix of their paths.  A node is
  contextually relevant in a space when it and each of its ancestors up to and including
  the node at the boundary are relevant.
\<close>

fun commonPrefix :: "nat list \<Rightarrow> nat list \<Rightarrow> nat list" where
  "commonPrefix (i # p) (j # q) = (if i = j then i # commonPrefix p q else [])"
| "commonPrefix p q = []"

definition spaceRoot :: "DOMSpace \<Rightarrow> Node" where
  "spaceRoot sp =
     (fst (node (min_loc sp)),
      commonPrefix (snd (node (min_loc sp))) (snd (node (max_loc sp))))"

definition contextuallyRelevant :: "dom list \<Rightarrow> DOMSpace \<Rightarrow> Node \<Rightarrow> bool" where
  "contextuallyRelevant w sp n =
     (\<forall>k \<in> set [length (snd (spaceRoot sp))..<Suc (length (snd n))].
        isRelevant w sp (fst n, take k (snd n)))"

text \<open>A location is normalized when \<open>isNormalized\<close> returns true.\<close>

definition normalized :: "dom list \<Rightarrow> DOMLoc \<Rightarrow> bool" where
  "normalized w loc = (isNormalized w loc = Inr True)"

text \<open>
  Ascending from a node in \<open>previous\<close>: the candidate is the location in the parent at
  the index of the node; without a parent \<open>null\<close> is returned.
\<close>

definition ascendBefore :: "dom list \<Rightarrow> DOMSpace \<Rightarrow> Node \<Rightarrow> error + DOMLoc option" where
  "ascendBefore w sp n =
     (case parentNode n of
        None \<Rightarrow> Inr None
      | Some parent \<Rightarrow>
          bindE (DOMLoc_new parent (indexOf (childNodes w parent) n)) (clip w sp))"

section \<open>A sample forest\<close>

text \<open>
  A document \<open><div><span>ab</span><!-- --> cd</div>\<close> and, in a tree of its own, a
  detached element \<open><p>xyz</p>\<close>.
\<close>

definition sampleForest :: "dom list" where
  "sampleForest =
     [Document [Element [Element [Text ''ab''], Other, Text ''cd'']],
      Element [Text ''xyz'']]"

definition sDoc :: Node where "sDoc = (0, [])"
definition sDiv :: Node where "sDiv = (0, [0])"
definition sSpan :: Node where "sSpan = (0, [0, 0])"
definition sAb :: Node where "sAb = (0, [0, 0, 0])"
definition sComment :: Node where "sComment = (0, [0, 1])"
definition sCd :: Node where "sCd = (0, [0, 2])"
definition sP :: Node where "sP = (1, [])"
definition sXyz :: Node where "sXyz = (1, [0])"

text \<open>A forest of one tree, a text node \<open>xyz\<close> without parent.\<close>

definition loneText :: "dom list" where
  "loneText = [Text ''xyz'']"

definition sLone :: Node where "sLone = (0, [])"

text \<open>
  Spaces over the document: all of it; from its start to the start of the \<open>div\<close>; all
  of it with the \<open>span\<close> irrelevant; from beyond the end of the text \<open>ab\<close> to the
  end; from the start of the text \<open>ab\<close> to the end with the \<open>span\<close> irrelevant; and
  from the start into the text \<open>ab\<close> with the \<open>div\<close> irrelevant.
\<close>

definition sampleSpace :: DOMSpace where
  "sampleSpace =
     DOMSpace_init \<lparr>node = sDoc, offset = 0\<rparr> \<lparr>node = sDoc, offset = 1\<rparr> None"

definition narrowSpace :: DOMSpace where
  "narrowSpace =
     DOMSpace_init \<lparr>node = sDoc, offset = 0\<rparr> \<lparr>node = sDiv, offset = 0\<rparr> None"

definition hiddenSpanSpace :: DOMSpace where
  "hiddenSpanSpace =
     DOMSpace_init \<lparr>node = sDoc, offset = 0\<rparr> \<lparr>node = sDoc, offset = 1\<rparr>
       (Some (\<lambda>n. n \<noteq> sSpan))"

definition lateSpace :: DOMSpace where
  "lateSpace =
     DOMSpace_init \<lparr>node = sAb, offset = 7\<rparr> \<lparr>node = sDoc, offset = 1\<rparr> None"

definition insideHiddenSpace :: DOMSpace where
  "insideHiddenSpace =
     DOMSpace_init \<lparr>node = sAb, offset = 0\<rparr> \<lparr>node = sDoc, offset = 1\<rparr>
       (Some (\<lambda>n. n \<noteq> sSpan))"

definition hiddenDivSpace :: DOMSpace where
  "hiddenDivSpace =
     DOMSpace_init \<lparr>node = sDoc, offset = 0\<rparr> \<lparr>node = sAb, offset = 1\<rparr>
       (Some (\<lambda>n. n \<noteq> sDiv))"

section \<open>Basic facts\<close>

text \<open>
  The lemmas of this section serve the claims that follow it.  The central one,
  \<open>compare_lex\<close>, says that \<open>compare\<close> is the lexicographic comparison of the keys of
  the two locations; containment in a space is then a matter of keys (\<open>contains_lex\<close>).
\<close>

lemmas position_defs =
  DOCUMENT_POSITION_DISCONNECTED_def DOCUMENT_POSITION_PRECEDING_def
  DOCUMENT_POSITION_FOLLOWING_def DOCUMENT_POSITION_CONTAINS_def
  DOCUMENT_POSITION_CONTAINED_BY_def DOCUMENT_POSITION_IMPLEMENTATION_SPECIFIC_def

lemma bindE_Inl [simp]: "bindE (Inl e) f = Inl e"
  by (simp add: bindE_def)

lemma bindE_Inr [simp]: "bindE (Inr x) f = f x"
  by (simp add: bindE_def)

lemma bindE_eq_Inr: "bindE m f = Inr y \<longleftrightarrow> (\<exists>x. m = Inr x \<and> f x = Inr y)"
  by (cases m) auto

lemma bindE_eq_Inl: "bindE m f = Inl e \<longleftrightarrow> (m = Inl e \<or> (\<exists>x. m = Inr x \<and> f x = Inl e))"
  by (cases m) auto

subsection \<open>Paths\<close>

lemma pathPosition_append: "pathPosition (c @ p) (c @ q) = pathPosition p q"
  by (induction c) simp_all

lemma pathPosition_same [simp]: "pathPosition p p = 0"
  by (induction p) simp_all

lemma pathPosition_below: "pathPosition p (p @ j # q) = 20"
  using pathPosition_append [of p "[]" "j # q"] by (simp add: position_defs)

lemma pathPosition_above: "pathPosition (q @ i # p) q = 10"
  using pathPosition_append [of q "i # p" "[]"] by (simp add: position_defs)

lemma pathPosition_fork:
  "i \<noteq> j \<Longrightarrow> pathPosition (c @ i # p) (c @ j # q) = (if j < i then 2 else 4)"
  using pathPosition_append [of c "i # p" "j # q"] by (simp add: position_defs)

text \<open>Two paths are equal, or one extends the other, or they part at some index.\<close>

lemma path_cases:
  fixes p q :: "nat list"
  obtains (same) "p = q"
  | (below) j r where "q = p @ j # r"
  | (above) i r where "p = q @ i # r"
  | (fork) c i j p' q' where "p = c @ i # p'" "q = c @ j # q'" "i \<noteq> j"
proof (induction p q arbitrary: thesis rule: pathPosition.induct)
  case 1 then show ?case by simp
next
  case (2 j q) then show ?case by simp
next
  case (3 i p) then show ?case by simp
next
  case (4 i p j q)
  show ?case
  proof (cases "i = j")
    case False
    then show ?thesis using 4(5) [of "[]" i p j q] by simp
  next
    case True
    show ?thesis
    proof (rule 4(1) [OF True])
      assume "p = q" then show thesis using 4(2) True by simp
    next
      fix j' r assume "q = p @ j' # r" then show thesis using 4(3) [of j' r] True by simp
    next
      fix i' r assume "p = q @ i' # r" then show thesis using 4(4) [of i' r] True by simp
    next
      fix c i' j' p' q' assume "p = c @ i' # p'" "q = c @ j' # q'" "i' \<noteq> j'"
      then show thesis using 4(5) [of "i # c" i' p' j' q'] True by simp
    qed
  qed
qed

lemma less_append_same [simp]: "(c @ x < c @ y) = (x < (y::nat list))"
  by (induction c) simp_all

lemma Nil_less_snoc [simp]: "[] < s @ [x::nat]"
  by (cases s) simp_all

subsection \<open>Nodes of the forest\<close>

lemma subtree_append:
  "subtree t (p @ q) = (case subtree t p of None \<Rightarrow> None | Some t' \<Rightarrow> subtree t' q)"
  by (induction t p rule: subtree.induct) simp_all

lemma isNode_child:
  assumes "isNode w (r, p @ j # q)"
  shows "isNode w (r, p)" and "j < length (childNodes w (r, p))"
  using assms
  by (auto simp: isNode_def lookup_def subtree_append childNodes_def split: option.splits if_splits)

lemma item_childNodes:
  "item (childNodes w (r, p)) i =
     (if 0 \<le> i \<and> i < int (length (childNodes w (r, p))) then Some (r, p @ [nat i]) else None)"
  by (auto simp: item_def childNodes_def split: option.splits)

subsection \<open>Normalization\<close>

lemma normalizedOffset_supported:
  "nodeType w (node loc) \<noteq> OTHER_NODE \<Longrightarrow>
   normalizedOffset w loc = Inr (min (offset loc) (bound w (node loc)))"
  by (cases "nodeType w (node loc)") (auto simp: normalizedOffset_def bound_def Let_def min_def)

lemma normalizedOffset_other:
  "nodeType w (node loc) = OTHER_NODE \<Longrightarrow> normalizedOffset w loc = Inl UnsupportedNodeType"
  by (simp add: normalizedOffset_def)

lemma normalizeOffset_supported:
  "nodeType w (node loc) \<noteq> OTHER_NODE \<Longrightarrow>
   normalizeOffset w loc =
     Inr (if offset loc \<le> bound w (node loc) then Same
          else Fresh \<lparr>node = node loc, offset = bound w (node loc)\<rparr>)"
  by (auto simp: normalizeOffset_def normalizedOffset_supported DOMLoc_new_def min_def)

subsection \<open>Comparison is the lexicographic order of the keys\<close>

lemma pointedCompare_below:
  assumes "j < length (childNodes w (r, p))"
  shows "pointedCompare w (r, p) (int off) (r, p @ j # q) = (if off \<le> j then - 1 else 1)"
proof -
  have "pathPosition (p @ [off]) (p @ j # q) AND 4 \<noteq> 0 \<longleftrightarrow> off < j \<or> (off = j \<and> q \<noteq> [])"
    using pathPosition_append [of p "[off]" "j # q"]
    by (cases q) (auto simp: position_defs)
  then show ?thesis
    using assms
    by (auto simp: pointedCompare_def item_childNodes compareDocumentPosition_def position_defs)
qed

lemma compare_lex:
  assumes "fst (node a) = fst (node b)" "isNode w (node a)" "isNode w (node b)"
  shows "compare w a b = Inr (lexCompare (key a) (key b))"
proof -
  obtain r p where a: "node a = (r, p)" by (cases "node a")
  with assms(1) obtain q where b: "node b = (r, q)" by (cases "node b") auto
  show ?thesis
  proof (cases p q rule: path_cases)
    case same
    then show ?thesis
      using a b by (auto simp: compare_def equals_def key_def lexCompare_def)
  next
    case (below j s)
    with assms(3) b have "j < length (childNodes w (r, p))"
      using isNode_child(2) by simp
    from pointedCompare_below [OF this, of "offset a" s] show ?thesis
      using a b below pathPosition_below [of p j s]
      by (auto simp: compare_def equals_def key_def lexCompare_def
          compareDocumentPosition_def position_defs Let_def)
  next
    case (above i s)
    with assms(2) a have "i < length (childNodes w (r, q))"
      using isNode_child(2) by simp
    from pointedCompare_below [OF this, of "offset b" s] show ?thesis
      using a b above pathPosition_above [of q i s]
      by (auto simp: compare_def equals_def key_def lexCompare_def
          compareDocumentPosition_def position_defs Let_def)
  next
    case (fork c i j p' q')
    then show ?thesis
      using a b pathPosition_fork [of i j c p' q']
      by (auto simp: compare_def equals_def key_def lexCompare_def
          compareDocumentPosition_def position_defs Let_def)
  qed
qed

subsection \<open>Pointing to a node\<close>

lemma indexOf_map_upt:
  assumes "inj f" "m \<le> k" "k < c"
  shows "indexOf (map f [m..<c]) (f k) = int (k - m)"
  using assms
proof (induction "c - m" arbitrary: m)
  case 0
  then show ?case by simp
next
  case (Suc d)
  then have *: "[m..<c] = m # [Suc m..<c]" by (simp add: upt_conv_Cons)
  show ?case
  proof (cases "m = k")
    case True
    then show ?thesis using * by simp
  next
    case False
    with Suc have "indexOf (map f [Suc m..<c]) (f k) = int (k - Suc m)"
      by (intro Suc(1)) auto
    with False Suc(3,4) show ?thesis
      by (auto simp: * Let_def inj_eq [OF \<open>inj f\<close>])
  qed
qed

lemma indexOf_childNodes:
  assumes "k < length (childNodes w (r, p))"
  shows "indexOf (childNodes w (r, p)) (r, p @ [k]) = int k"
proof -
  have inj: "inj (\<lambda>i. (r, p @ [i]))" by (simp add: inj_def)
  from assms obtain t where t: "lookup w (r, p) = Some t" "k < length (childrenOf t)"
    by (auto simp: childNodes_def split: option.splits)
  then show ?thesis
    using indexOf_map_upt [OF inj, of 0 k "length (childrenOf t)"]
    by (simp add: childNodes_def)
qed

lemma parentNode_snoc [simp]: "parentNode (r, p @ [k]) = Some (r, p)"
  by (simp add: parentNode_def)

lemma parentNode_root [simp]: "parentNode (r, []) = None"
  by (simp add: parentNode_def)

lemma parentNode_eq_None: "parentNode n = None \<longleftrightarrow> snd n = []"
  by (simp add: parentNode_def)

lemma parentNode_eq_Some: "parentNode n = Some m \<longleftrightarrow> (\<exists>k. n = (fst m, snd m @ [k]))"
  by (cases n; cases m; cases "snd n" rule: rev_cases) (auto simp: parentNode_def)

lemma isNode_snoc:
  assumes "isNode w (r, p @ [k])"
  shows "isNode w (r, p)" and "k < length (childNodes w (r, p))"
  using isNode_child [of w r p k "[]"] assms by simp_all

lemma makePointingTo_child:
  assumes "isNode w (r, p @ [k])"
  shows "makePointingTo w (r, p @ [k]) = Inr \<lparr>node = (r, p), offset = k\<rparr>"
  using isNode_snoc(2) [OF assms]
  by (simp add: makePointingTo_def indexOf_childNodes DOMLoc_new_def)

lemma compare_disconnected:
  "fst (node a) \<noteq> fst (node b) \<Longrightarrow> compare w a b = Inl ComparingDisconnectedNodes"
  by (auto simp: compare_def equals_def compareDocumentPosition_def position_defs Let_def)

lemma pointedCompare_range: "pointedCompare w n off c = - 1 \<or> pointedCompare w n off c = 1"
  by (simp add: pointedCompare_def split: option.splits)

lemma pathPosition_values:
  "p \<noteq> q \<Longrightarrow> pathPosition p q \<in> {2, 4, 10, 20}"
  by (induction p q rule: pathPosition.induct) (auto simp: position_defs)

lemma compare_connected:
  assumes "fst (node a) = fst (node b)"
  shows "compare w a b = Inr 0 \<or> compare w a b = Inr (- 1) \<or> compare w a b = Inr 1"
proof (cases "snd (node a) = snd (node b)")
  case True
  with assms have "node a = node b" by (simp add: prod_eq_iff)
  then show ?thesis by (simp add: compare_def equals_def)
next
  case False
  from pathPosition_values [OF this] assms False
    pointedCompare_range [of w "node a" "int (offset a)" "node b"]
    pointedCompare_range [of w "node b" "int (offset b)" "node a"]
  show ?thesis
    by (auto simp: compare_def equals_def compareDocumentPosition_def position_defs Let_def)
qed

lemma compare_no_other_error:
  "compare w a b = Inl e \<Longrightarrow> e = ComparingDisconnectedNodes"
  using compare_connected [of a b w] compare_disconnected [of a b w]
  by (cases "fst (node a) = fst (node b)") auto

lemma contains_bool: "\<exists>c. contains w sp loc = Inr c"
proof -
  have 1: "\<exists>c. compare w (min_loc sp) loc = Inr c \<or> compare w (min_loc sp) loc = Inl ComparingDisconnectedNodes"
    using compare_no_other_error [of w "min_loc sp" loc] by (cases "compare w (min_loc sp) loc") auto
  have 2: "\<exists>c. compare w (max_loc sp) loc = Inr c \<or> compare w (max_loc sp) loc = Inl ComparingDisconnectedNodes"
    using compare_no_other_error [of w "max_loc sp" loc] by (cases "compare w (max_loc sp) loc") auto
  from 1 2 show ?thesis
    by (auto simp: contains_def)
qed

lemma DOMSpace_init_sel [simp]:
  "min_loc (DOMSpace_init mn mx test) = mn"
  "max_loc (DOMSpace_init mn mx test) = mx"
  "relevanceTest (DOMSpace_init mn mx test) = (case test of None \<Rightarrow> (\<lambda>n. True) | Some t \<Rightarrow> t)"
  by (simp_all add: DOMSpace_init_def)

lemma isRelevant_init [simp]:
  "isRelevant w (DOMSpace_init mn mx test) n =
     (nodeType w n \<noteq> OTHER_NODE \<and> (case test of None \<Rightarrow> True | Some t \<Rightarrow> t n))"
  by (cases "nodeType w n") (auto simp: isRelevant_def DOMSpace_init_def split: option.splits)

subsection \<open>The sample forest\<close>

lemmas sample_defs =
  sampleForest_def sDoc_def sDiv_def sSpan_def sAb_def sComment_def sCd_def sP_def sXyz_def

lemma sample_nodeType:
  "nodeType sampleForest sDoc = DOCUMENT_NODE"
  "nodeType sampleForest sDiv = ELEMENT_NODE"
  "nodeType sampleForest sSpan = ELEMENT_NODE"
  "nodeType sampleForest sAb = TEXT_NODE"
  "nodeType sampleForest sComment = OTHER_NODE"
  "nodeType sampleForest sCd = TEXT_NODE"
  "nodeType sampleForest sP = ELEMENT_NODE"
  "nodeType sampleForest sXyz = TEXT_NODE"
  by (simp_all add: sample_defs nodeType_def lookup_def)

lemma sample_bound:
  "bound sampleForest sDoc = 1"
  "bound sampleForest sDiv = 3"
  "bound sampleForest sSpan = 1"
  "bound sampleForest sAb = 2"
  "bound sampleForest sCd = 2"
  "bound sampleForest sP = 1"
  "bound sampleForest sXyz = 3"
  by (simp_all add: bound_def sample_nodeType)
     (simp_all add: sample_defs textLength_def childNodes_def lookup_def)

lemma sample_isNode:
  "isNode sampleForest sDoc" "isNode sampleForest sDiv" "isNode sampleForest sSpan"
  "isNode sampleForest sAb" "isNode sampleForest sComment" "isNode sampleForest sCd"
  "isNode sampleForest sP" "isNode sampleForest sXyz"
  by (simp_all add: sample_defs isNode_def lookup_def)

lemma sample_compare:
  assumes "fst n = 0" "fst m = 0" "isNode sampleForest n" "isNode sampleForest m"
  shows "compare sampleForest \<lparr>node = n, offset = i\<rparr> \<lparr>node = m, offset = j\<rparr> =
         Inr (lexCompare (snd n @ [i]) (snd m @ [j]))"
  using compare_lex [of "\<lparr>node = n, offset = i\<rparr>" "\<lparr>node = m, offset = j\<rparr>" sampleForest] assms
  by (simp add: key_def)

lemma sample_fst:
  "fst sDoc = 0" "fst sDiv = 0" "fst sSpan = 0" "fst sAb = 0" "fst sComment = 0" "fst sCd = 0"
  "fst sP = 1" "fst sXyz = 1"
  by (simp_all add: sample_defs)

lemma sample_snd:
  "snd sDoc = []" "snd sDiv = [0]" "snd sSpan = [0, 0]" "snd sAb = [0, 0, 0]"
  "snd sComment = [0, 1]" "snd sCd = [0, 2]" "snd sP = []" "snd sXyz = [0]"
  by (simp_all add: sample_defs)

subsection \<open>Escaping\<close>

lemma isNode_nodeType: "nodeType w n \<noteq> OTHER_NODE \<Longrightarrow> isNode w n"
  by (auto simp: nodeType_def isNode_def split: option.splits)

lemma isRelevant_isNode: "isRelevant w sp n \<Longrightarrow> isNode w n"
  by (rule isNode_nodeType) (auto simp: isRelevant_def)

lemma isNode_parent:
  assumes "isNode w n" "parentNode n = Some m"
  shows "isNode w m"
proof -
  from assms(2) obtain k where "n = (fst m, snd m @ [k])"
    by (auto simp: parentNode_eq_Some)
  with assms(1) show ?thesis using isNode_snoc(1) [of w "fst m" "snd m" k] by simp
qed

lemma containsNode_root: "parentNode n = None \<Longrightarrow> containsNode w sp n = Inr False"
  by (simp add: containsNode_def)

lemma containsNode_child:
  "isNode w (r, p @ [k]) \<Longrightarrow>
   containsNode w sp (r, p @ [k]) = contains w sp \<lparr>node = (r, p), offset = k\<rparr>"
  by (simp add: containsNode_def makePointingTo_child)

lemma containsNode_bool:
  assumes "isNode w n"
  shows "\<exists>c. containsNode w sp n = Inr c"
proof (cases "snd n" rule: rev_cases)
  case Nil
  then show ?thesis by (auto simp: containsNode_def parentNode_def)
next
  case (snoc p k)
  then have "n = (fst n, p @ [k])" by (simp add: prod_eq_iff)
  with assms containsNode_child [of w "fst n" p k sp] contains_bool show ?thesis by metis
qed

lemma collect_total:
  "(\<And>n. x = Some n \<Longrightarrow> isNode w n) \<Longrightarrow> \<exists>chain. collectAncestorsAndSelf w sp x acc = Inr chain"
proof (induction w sp x acc rule: collectAncestorsAndSelf.induct)
  case (1 w sp acc)
  then show ?case by (simp add: collectAncestorsAndSelf.simps)
next
  case (2 w sp n acc)
  then have n: "isNode w n" by simp
  from containsNode_bool [OF n] obtain c where c: "containsNode w sp n = Inr c" by blast
  show ?case
  proof (cases c)
    case False
    with c show ?thesis by (simp add: collectAncestorsAndSelf.simps)
  next
    case True
    have "\<exists>chain. collectAncestorsAndSelf w sp (parentNode n) (acc @ [n]) = Inr chain"
      using 2(1) [OF c True] isNode_parent [OF n] by blast
    with c True show ?thesis by (simp add: collectAncestorsAndSelf.simps)
  qed
qed

lemma scanReversed_relevant:
  "\<forall>c \<in> set xs. isRelevant w sp c \<Longrightarrow> scanReversed w sp first xs = Inr None"
  by (induction xs) simp_all

lemma isNormalized_True:
  "isNormalized w loc = Inr True \<longleftrightarrow> normalizedOffset w loc = Inr (offset loc)"
  by (cases "normalizedOffset w loc") (auto simp: isNormalized_def)

lemma contains_same_node:
  assumes "node (min_loc sp) = n" "node (max_loc sp) = n"
  shows "contains w sp \<lparr>node = n, offset = off\<rparr> =
           Inr (offset (min_loc sp) \<le> off \<and> off \<le> offset (max_loc sp))"
  using assms by (auto simp: contains_def compare_def equals_def)

lemma lexCompare_le [simp]: "lexCompare x y \<le> 0 \<longleftrightarrow> x \<le> y"
  by (auto simp: lexCompare_def)

lemma lexCompare_ge [simp]: "0 \<le> lexCompare x y \<longleftrightarrow> y \<le> x"
  by (auto simp: lexCompare_def)

lemma lexCompare_less [simp]: "lexCompare x y < 0 \<longleftrightarrow> x < y"
  by (auto simp: lexCompare_def)

lemma contains_lex:
  assumes "isNode w (node (min_loc sp))" "isNode w (node (max_loc sp))" "isNode w (node loc)"
    and "fst (node (min_loc sp)) = fst (node loc)" "fst (node (max_loc sp)) = fst (node loc)"
  shows "contains w sp loc = Inr (key (min_loc sp) \<le> key loc \<and> key loc \<le> key (max_loc sp))"
  using assms by (simp add: contains_def compare_lex)

lemma contains_other_tree:
  "fst (node (min_loc sp)) \<noteq> fst (node loc) \<Longrightarrow> contains w sp loc = Inr False"
  by (simp add: contains_def compare_disconnected)

lemma makeSpanningNode_eq:
  assumes "makeSpanningNode w n test = Inr sp"
  shows "sp = DOMSpace_init \<lparr>node = n, offset = 0\<rparr>
                \<lparr>node = n, offset = length (childNodes w n)\<rparr> test"
    and "isRelevant w sp n"
  using assms
  by (auto simp: makeSpanningNode_def DOMLoc_new_def DOMSpace_new_def Let_def bindE_eq_Inr
      split: if_splits option.splits)

subsection \<open>Stepping\<close>

lemma indexOf_ge: "- 1 \<le> indexOf xs x"
  by (induction xs) (auto simp: Let_def)

lemma clip_eq: "bindE (contains w sp l) (\<lambda>c. Inr (if c then Some l else None)) = clip w sp l"
  using contains_bool [of w sp l] by (auto simp: clip_def)

lemma DOMLoc_new_nat [simp]: "DOMLoc_new n (int k) = Inr \<lparr>node = n, offset = k\<rparr>"
  by (simp add: DOMLoc_new_def)

lemma DOMLoc_new_nonneg: "0 \<le> i \<Longrightarrow> DOMLoc_new n i = Inr \<lparr>node = n, offset = nat i\<rparr>"
  by (simp add: DOMLoc_new_def)

lemma item_nat:
  "item xs (int k) = (if k < length xs then Some (xs ! k) else None)"
  by (simp add: item_def)

lemma ascend_eq:
  "(case parentNode n of
      None \<Rightarrow> Inr None
    | Some parent \<Rightarrow>
        bindE (DOMLoc_new parent (indexOf (childNodes w parent) n + 1)) (\<lambda>l.
          bindE (contains w sp l) (\<lambda>c. Inr (if c then Some l else None)))) = ascendAfter w sp n"
proof (cases "parentNode n")
  case None
  then show ?thesis by (simp add: ascendAfter_def)
next
  case (Some parent)
  have "0 \<le> indexOf (childNodes w parent) n + 1"
    using indexOf_ge [of "childNodes w parent" n] by simp
  then show ?thesis
    using Some by (simp add: ascendAfter_def DOMLoc_new_nonneg clip_eq)
qed

lemma nextLoc_unfold:
  assumes "escapeIrrelevantNode w sp start = Inr r"
  shows "nextLoc w sp start =
     (let n = node (deref start r); off = offset (deref start r) in
      if nodeType w n = TEXT_NODE then
        (if off + 1 \<le> textLength w n then clip w sp \<lparr>node = n, offset = off + 1\<rparr>
         else ascendAfter w sp n)
      else if nodeType w n = OTHER_NODE then Inl InternalError
      else if off < length (childNodes w n) then
        (if isRelevant w sp (childNodes w n ! off)
         then clip w sp \<lparr>node = childNodes w n ! off, offset = 0\<rparr>
         else clip w sp \<lparr>node = n, offset = off + 1\<rparr>)
      else ascendAfter w sp n)"
proof -
  have new0: "\<And>m. DOMLoc_new m 0 = Inr \<lparr>node = m, offset = 0\<rparr>"
    by (simp add: DOMLoc_new_def)
  have new1: "\<And>m k. DOMLoc_new m (int k + 1) = Inr \<lparr>node = m, offset = k + 1\<rparr>"
    by (simp add: DOMLoc_new_def nat_add_distrib)
  show ?thesis
    by (cases "nodeType w (node (deref start r))")
       (simp_all add: nextLoc_def assms Let_def item_nat new0 new1 clip_eq ascend_eq)
qed

lemma ascendAfter_child:
  assumes "isNode w (r, p @ [k])"
  shows "ascendAfter w sp (r, p @ [k]) = clip w sp \<lparr>node = (r, p), offset = k + 1\<rparr>"
  using isNode_snoc(2) [OF assms]
  by (simp add: ascendAfter_def indexOf_childNodes nat_add_distrib)

subsection \<open>Document order\<close>

lemma set_docOrder: "p \<in> set (docOrder t) \<longleftrightarrow> subtree t p \<noteq> None"
proof (induction t arbitrary: p rule: docOrder.induct)
  case (1 t)
  show ?case
  proof (cases p)
    case Nil
    then show ?thesis by (subst docOrder.simps) simp
  next
    case (Cons i q)
    have "p \<in> set (docOrder t) \<longleftrightarrow> i < length (childrenOf t) \<and> q \<in> set (docOrder (childrenOf t ! i))"
      by (subst docOrder.simps) (auto simp: Cons)
    then show ?thesis using 1 [of i q] Cons by auto
  qed
qed

lemma sorted_wrt_concat_upt:
  assumes "\<And>i. i < n \<Longrightarrow> sorted_wrt R (f i)"
    and "\<And>i j x y. i < j \<Longrightarrow> j < n \<Longrightarrow> x \<in> set (f i) \<Longrightarrow> y \<in> set (f j) \<Longrightarrow> R x y"
  shows "sorted_wrt R (concat (map f [0..<n]))"
  using assms
proof (induction n)
  case 0
  then show ?case by simp
next
  case (Suc n)
  have "sorted_wrt R (concat (map f [0..<n]))"
    using Suc.prems by (intro Suc.IH) auto
  then show ?case
    using Suc.prems by (auto simp: sorted_wrt_append)
qed

lemma sorted_docOrder: "sorted_wrt (<) (docOrder t)"
proof (induction t rule: docOrder.induct)
  case (1 t)
  let ?f = "\<lambda>i. map ((#) i) (docOrder (childrenOf t ! i))"
  have "sorted_wrt (<) (concat (map ?f [0..<length (childrenOf t)]))"
  proof (rule sorted_wrt_concat_upt)
    fix i assume "i < length (childrenOf t)"
    then have "sorted_wrt (<) (docOrder (childrenOf t ! i))" using 1 by simp
    then show "sorted_wrt (<) (?f i)"
      by (simp add: sorted_wrt_map)
  next
    fix i j x y
    assume "i < j" "x \<in> set (?f i)" "y \<in> set (?f j)"
    then show "x < y" by auto
  qed
  then show ?case
    by (subst docOrder.simps) auto
qed

lemma indexOf_notin: "x \<notin> set xs \<Longrightarrow> indexOf xs x = - 1"
  by (induction xs) (auto simp: Let_def)

lemma indexOf_in: "x \<in> set xs \<Longrightarrow> 0 \<le> indexOf xs x"
  by (induction xs) (auto simp: Let_def)

lemma indexOf_sorted:
  fixes xs :: "nat list list"
  assumes "sorted_wrt (<) xs" "x \<in> set xs" "y \<in> set xs"
  shows "indexOf xs x < indexOf xs y \<longleftrightarrow> x < y"
  using assms
proof (induction xs)
  case Nil
  then show ?case by simp
next
  case (Cons z zs)
  show ?case
  proof (cases "x = z")
    case xz: True
    show ?thesis
    proof (cases "y = z")
      case True
      with xz show ?thesis by simp
    next
      case False
      with Cons.prems xz have "y \<in> set zs" "x < y" by auto
      with xz False indexOf_in [of y zs] show ?thesis by (auto simp: Let_def)
    qed
  next
    case xz: False
    with Cons.prems have x: "x \<in> set zs" "z < x" by auto
    show ?thesis
    proof (cases "y = z")
      case True
      with xz x indexOf_in [of x zs] show ?thesis by (auto simp: Let_def)
    next
      case False
      with Cons.prems have y: "y \<in> set zs" by auto
      from Cons.IH [OF _ x(1) y] Cons.prems(1)
      have "indexOf zs x < indexOf zs y \<longleftrightarrow> x < y" by simp
      with xz False indexOf_in [OF x(1)] indexOf_in [OF y] show ?thesis
        by (auto simp: Let_def)
    qed
  qed
qed

lemma precedes_iff:
  assumes "isNode w a" "isNode w b" "fst a = fst b"
  shows "precedes w a b \<longleftrightarrow> snd a < snd b"
proof -
  from assms have "fst a < length w" "snd a \<in> set (docOrder (w ! fst a))"
    "snd b \<in> set (docOrder (w ! fst a))"
    by (auto simp: isNode_def lookup_def set_docOrder split: if_splits)
  then show ?thesis
    using indexOf_sorted [OF sorted_docOrder] assms(3) by (simp add: precedes_def)
qed

lemma properAncestor_iff:
  "properAncestor a b \<longleftrightarrow> (\<exists>k q. b = (fst a, snd a @ k # q))"
proof
  assume h: "properAncestor a b"
  then have "snd b = snd a @ drop (length (snd a)) (snd b)"
    by (metis append_take_drop_id properAncestor_def)
  moreover from h have "drop (length (snd a)) (snd b) \<noteq> []"
    by (simp add: properAncestor_def)
  ultimately obtain k q where "snd b = snd a @ k # q"
    by (cases "drop (length (snd a)) (snd b)") auto
  with h show "\<exists>k q. b = (fst a, snd a @ k # q)"
    by (auto simp: properAncestor_def prod_eq_iff)
next
  assume "\<exists>k q. b = (fst a, snd a @ k # q)"
  then show "properAncestor a b" by (auto simp: properAncestor_def)
qed

lemma lexCompare_same [simp]: "lexCompare x x = 0"
  by (simp add: lexCompare_def)

lemma lexCompare_flip: "lexCompare y x = - lexCompare x y"
  by (auto simp: lexCompare_def)

lemma lexCompare_eq_0 [simp]: "lexCompare x y = 0 \<longleftrightarrow> x = y"
  by (auto simp: lexCompare_def)

lemma lexCompare_eq_minus [simp]: "lexCompare x y = - 1 \<longleftrightarrow> x < y"
  by (auto simp: lexCompare_def)

lemma lexCompare_eq_plus [simp]: "lexCompare x y = 1 \<longleftrightarrow> y < x"
  by (auto simp: lexCompare_def)

lemma less_append_Cons [simp]: "(p::nat list) < p @ j # r"
  using less_append_same [of p "[]" "j # r"] by simp

lemma not_append_Cons_less [simp]: "\<not> (p::nat list) @ j # r < p"
  using less_append_same [of p "j # r" "[]"] by simp

lemma key_eq_iff: "key a = key b \<longleftrightarrow> snd (node a) = snd (node b) \<and> offset a = offset b"
  by (simp add: key_def)

lemma key_less_fork:
  assumes "snd (node a) = c @ i # p" "snd (node b) = c @ j # q" "i \<noteq> j"
  shows "key a < key b \<longleftrightarrow> snd (node a) < snd (node b)"
  using assms by (simp add: key_def)

lemma key_less_below:
  assumes "snd (node b) = snd (node a) @ k # q"
  shows "key a < key b \<longleftrightarrow> offset a \<le> k"
proof -
  have "[offset a] < k # q @ [offset b] \<longleftrightarrow> offset a \<le> k"
    by auto
  then have "snd (node a) @ [offset a] < snd (node a) @ k # q @ [offset b] \<longleftrightarrow> offset a \<le> k"
    by (simp only: less_append_same)
  then show ?thesis using assms by (simp add: key_def)
qed

lemma key_less_above:
  assumes "snd (node a) = snd (node b) @ k # q"
  shows "key a < key b \<longleftrightarrow> k < offset b"
proof -
  have "k # q @ [offset a] < [offset b] \<longleftrightarrow> k < offset b"
    by auto
  then have "snd (node b) @ k # q @ [offset a] < snd (node b) @ [offset b] \<longleftrightarrow> k < offset b"
    by (simp only: less_append_same)
  then show ?thesis using assms by (simp add: key_def)
qed

lemma compareDocumentPosition_following:
  assumes "isNode w a" "isNode w b" "fst a = fst b" "a \<noteq> b"
  shows "(compareDocumentPosition a b AND DOCUMENT_POSITION_FOLLOWING) \<noteq> 0 \<longleftrightarrow> precedes w a b"
proof -
  have "(pathPosition (snd a) (snd b) AND 4) \<noteq> 0 \<longleftrightarrow> snd a < snd b"
  proof (cases "snd a" "snd b" rule: path_cases)
    case same
    with assms show ?thesis by (simp add: prod_eq_iff)
  next
    case (below j r)
    then show ?thesis using pathPosition_below [of "snd a" j r] by simp
  next
    case (above i r)
    then show ?thesis using pathPosition_above [of "snd b" i r] by simp
  next
    case (fork c i j p' q')
    then show ?thesis using pathPosition_fork [of i j c p' q'] by auto
  qed
  then show ?thesis
    using assms by (simp add: compareDocumentPosition_def precedes_iff position_defs)
qed

subsection \<open>Stepping inside a space\<close>

lemma commonPrefix_prefix:
  "\<exists>s t. p = commonPrefix p q @ s \<and> q = commonPrefix p q @ t"
  by (induction p q rule: commonPrefix.induct) auto

lemma between_prefix:
  fixes c :: "nat list"
  assumes "c @ s \<le> z" "z \<le> c @ t" "s \<noteq> []"
  shows "\<exists>s'. z = c @ s'"
  using assms
proof (induction c arbitrary: z)
  case Nil
  then show ?case by simp
next
  case (Cons a c)
  show ?case
  proof (cases z)
    case Nil
    with Cons.prems show ?thesis by (simp add: list_le_def)
  next
    case (Cons b z')
    with Cons.prems have "b = a" "c @ s \<le> z'" "z' \<le> c @ t"
      by (auto simp: list_le_def)
    with Cons.IH [of z'] Cons.prems(3) Cons show ?thesis by auto
  qed
qed

lemma Nil_less_iff [simp]: "[] < xs \<longleftrightarrow> xs \<noteq> ([]::nat list)"
  by (cases xs) simp_all

lemma less_snoc0: "(z::nat list) < u \<Longrightarrow> z @ [0] \<le> u"
proof (induction z arbitrary: u)
  case Nil
  then show ?case by (cases u) (auto simp: list_le_def)
next
  case (Cons a z)
  then show ?case by (cases u) (auto simp: list_le_def)
qed

lemma less_snoc0_le: "(u::nat list) < z @ [0] \<Longrightarrow> u \<le> z"
proof (induction z arbitrary: u)
  case Nil
  then show ?case by (cases u) (auto simp: list_le_def)
next
  case (Cons a z)
  then show ?case by (cases u) (auto simp: list_le_def)
qed

lemma between_succ:
  fixes z :: "nat list"
  assumes "z @ [k] < u" "u < z @ [Suc k]"
  shows "\<exists>s. s \<noteq> [] \<and> u = z @ k # s"
  using assms
proof (induction z arbitrary: u)
  case Nil
  then show ?case by (cases u) auto
next
  case (Cons a z)
  then show ?case by (cases u) auto
qed

lemma between_end:
  fixes z :: "nat list"
  assumes "z @ [k, b] < u" "u < z @ [Suc k]"
  shows "\<exists>j s. u = z @ k # j # s \<and> (b < j \<or> (b = j \<and> s \<noteq> []))"
proof -
  have "z @ [k] < z @ [k, b]" by simp
  from this assms(1) have "z @ [k] < u" by (rule less_trans)
  from between_succ [OF this assms(2)] obtain s where s: "s \<noteq> []" "u = z @ k # s" by blast
  then obtain j s' where j: "s = j # s'" by (cases s) auto
  from assms(1) s j have "[b] < j # s'"
    using less_append_same [of "z @ [k]" "[b]" "j # s'"] by simp
  then have "b < j \<or> (b = j \<and> s' \<noteq> [])" by auto
  with s j show ?thesis by auto
qed

lemma not_less_snoc0: "\<not> (u @ [a::nat]) < [0]"
  by (cases u) auto

lemma isNode_take:
  assumes "isNode w n"
  shows "isNode w (fst n, take k (snd n))"
proof (cases "k < length (snd n)")
  case False
  with assms show ?thesis by simp
next
  case True
  then have "snd n = take k (snd n) @ (snd n ! k) # drop (Suc k) (snd n)"
    by (simp add: id_take_nth_drop)
  then have "n = (fst n, take k (snd n) @ (snd n ! k) # drop (Suc k) (snd n))"
    by (simp add: prod_eq_iff)
  with assms isNode_child(1) [of w "fst n" "take k (snd n)" "snd n ! k" "drop (Suc k) (snd n)"]
  show ?thesis by simp
qed

lemma collect_members:
  assumes "collectAncestorsAndSelf w sp x acc = Inr chain" "c \<in> set chain"
  shows "c \<in> set acc \<or>
    (containsNode w sp c = Inr True \<and> (\<exists>n k. x = Some n \<and> c = (fst n, take k (snd n))))"
  using assms
proof (induction w sp x acc rule: collectAncestorsAndSelf.induct)
  case (1 w sp acc)
  then show ?case by (simp add: collectAncestorsAndSelf.simps)
next
  case (2 w sp n acc)
  show ?case
  proof (cases "containsNode w sp n")
    case (Inl e)
    with 2 show ?thesis by (simp add: collectAncestorsAndSelf.simps)
  next
    case (Inr b)
    show ?thesis
    proof (cases b)
      case False
      with 2 Inr show ?thesis by (simp add: collectAncestorsAndSelf.simps)
    next
      case True
      with 2(2) Inr have rec: "collectAncestorsAndSelf w sp (parentNode n) (acc @ [n]) = Inr chain"
        by (simp add: collectAncestorsAndSelf.simps)
      from 2(1) [OF Inr True rec 2(3)]
      consider "c \<in> set acc" | "c = n"
        | m k where "containsNode w sp c = Inr True" "parentNode n = Some m"
            "c = (fst m, take k (snd m))"
        by auto
      then show ?thesis
      proof cases
        case 1
        then show ?thesis by simp
      next
        case 2
        have "\<exists>m k. Some n = Some m \<and> c = (fst m, take k (snd m))"
          using 2 by (intro exI [of _ n] exI [of _ "length (snd n)"]) simp
        moreover have "containsNode w sp c = Inr True" using 2 Inr True by simp
        ultimately show ?thesis by simp
      next
        case 3
        from 3(2) have "m = (fst n, butlast (snd n))"
          by (auto simp: parentNode_def split: if_splits)
        then have "c = (fst n, take (min k (length (snd n) - 1)) (snd n))"
          using 3(3) by (simp add: butlast_conv_take min.commute)
        then have "\<exists>m k. Some n = Some m \<and> c = (fst m, take k (snd m))"
          by (intro exI [of _ n] exI [of _ "min k (length (snd n) - 1)"]) simp
        with 3(1) show ?thesis by simp
      qed
    qed
  qed
qed

lemma containsNode_True:
  assumes "isNode w c" "containsNode w sp c = Inr True"
  shows "\<exists>loc. contains w sp loc = Inr True \<and> key loc = snd c \<and> node loc = (fst c, butlast (snd c))
           \<and> isNode w (node loc)"
proof (cases "snd c" rule: rev_cases)
  case Nil
  with assms(2) show ?thesis by (simp add: containsNode_def parentNode_def)
next
  case (snoc q k)
  then have c: "c = (fst c, q @ [k])" by (simp add: prod_eq_iff)
  with assms(1) have n: "isNode w (fst c, q @ [k])" by simp
  from containsNode_child [OF n, of sp] assms(2) c
  have "contains w sp \<lparr>node = (fst c, q), offset = k\<rparr> = Inr True" by simp
  moreover have "isNode w (fst c, q)" using isNode_snoc(1) [OF n] .
  ultimately show ?thesis
    using snoc by (intro exI [of _ "\<lparr>node = (fst c, q), offset = k\<rparr>"]) (simp add: key_def)
qed

lemma contains_keys:
  assumes "isNode w (node (min_loc sp))" "isNode w (node (max_loc sp))"
    and "fst (node (min_loc sp)) = fst (node (max_loc sp))"
    and "isNode w (node loc)"
  shows "contains w sp loc = Inr True \<longleftrightarrow>
     fst (node loc) = fst (node (min_loc sp)) \<and>
     key (min_loc sp) \<le> key loc \<and> key loc \<le> key (max_loc sp)"
proof (cases "fst (node loc) = fst (node (min_loc sp))")
  case True
  with assms show ?thesis by (simp add: contains_lex)
next
  case False
  then show ?thesis using contains_other_tree [of sp loc w] by auto
qed

lemma spaceRoot_prefix:
  "\<exists>s t. snd (node (min_loc sp)) = snd (spaceRoot sp) @ s \<and>
         snd (node (max_loc sp)) = snd (spaceRoot sp) @ t"
  unfolding spaceRoot_def snd_conv by (rule commonPrefix_prefix)

lemma key_in_root:
  assumes "key (min_loc sp) \<le> z" "z \<le> key (max_loc sp)"
  shows "\<exists>s. z = snd (spaceRoot sp) @ s"
proof -
  obtain s t where st: "snd (node (min_loc sp)) = snd (spaceRoot sp) @ s"
    "snd (node (max_loc sp)) = snd (spaceRoot sp) @ t"
    using spaceRoot_prefix [of sp] by blast
  have k: "key (min_loc sp) = snd (spaceRoot sp) @ (s @ [offset (min_loc sp)])"
    "key (max_loc sp) = snd (spaceRoot sp) @ (t @ [offset (max_loc sp)])"
    unfolding key_def st by simp_all
  have "snd (spaceRoot sp) @ (s @ [offset (min_loc sp)]) \<le> z"
    using assms(1) unfolding k(1) .
  moreover have "z \<le> snd (spaceRoot sp) @ (t @ [offset (max_loc sp)])"
    using assms(2) unfolding k(2) .
  ultimately show ?thesis by (rule between_prefix) simp
qed

lemma loc_in_root:
  assumes "key (min_loc sp) \<le> key loc" "key loc \<le> key (max_loc sp)"
  shows "\<exists>s. snd (node loc) = snd (spaceRoot sp) @ s"
proof -
  from key_in_root [OF assms] obtain s where s: "key loc = snd (spaceRoot sp) @ s" by blast
  show ?thesis
  proof (cases s rule: rev_cases)
    case Nil
    obtain s1 where "snd (node (min_loc sp)) = snd (spaceRoot sp) @ s1"
      using spaceRoot_prefix [of sp] by blast
    then have "key (min_loc sp) = key loc @ (s1 @ [offset (min_loc sp)])"
      using s Nil by (simp add: key_def)
    moreover have "key loc < key loc @ (s1 @ [offset (min_loc sp)])"
      by (cases "s1 @ [offset (min_loc sp)]") simp_all
    ultimately show ?thesis using assms(1) by simp
  next
    case (snoc s' a)
    with s show ?thesis by (simp add: key_def)
  qed
qed

lemma normalized_iff:
  "normalized w loc \<longleftrightarrow> nodeType w (node loc) \<noteq> OTHER_NODE \<and> offset loc \<le> bound w (node loc)"
proof (cases "nodeType w (node loc) = OTHER_NODE")
  case True
  then show ?thesis
    by (simp add: normalized_def isNormalized_def normalizedOffset_other)
next
  case False
  then show ?thesis
    by (auto simp: normalized_def isNormalized_def normalizedOffset_supported min_def)
qed

lemma contextuallyRelevant_iff:
  "contextuallyRelevant w sp n \<longleftrightarrow>
     (\<forall>k. length (snd (spaceRoot sp)) \<le> k \<and> k \<le> length (snd n) \<longrightarrow>
          isRelevant w sp (fst n, take k (snd n)))"
  by (auto simp: contextuallyRelevant_def)

lemma escape_same:
  assumes sp: "isNode w (node (min_loc sp))" "isNode w (node (max_loc sp))"
      "fst (node (min_loc sp)) = fst (node (max_loc sp))"
    and x: "isNode w (node x)" "contains w sp x = Inr True" "normalized w x"
      "contextuallyRelevant w sp (node x)"
  shows "escapeIrrelevantNode w sp x = Inr Same"
proof -
  from collect_total [of "Some (node x)" w sp "[]"] x(1)
  obtain chain where chain: "collectAncestorsAndSelf w sp (Some (node x)) [] = Inr chain"
    by auto
  have "isRelevant w sp c" if c: "c \<in> set chain" for c
  proof -
    from collect_members [OF chain c]
    obtain k where k: "containsNode w sp c = Inr True" "c = (fst (node x), take k (snd (node x)))"
      by auto
    have cn: "isNode w c" using isNode_take [OF x(1), of k] k(2) by simp
    from containsNode_True [OF cn k(1)] obtain loc where
      loc: "contains w sp loc = Inr True" "key loc = snd c" "isNode w (node loc)" by blast
    from contains_keys [OF sp loc(3)] loc(1,2)
    have "key (min_loc sp) \<le> snd c" "snd c \<le> key (max_loc sp)" by simp_all
    from key_in_root [OF this] have "length (snd (spaceRoot sp)) \<le> length (snd c)"
      by auto
    moreover have "c = (fst (node x), take (length (snd c)) (snd (node x)))"
      using k(2) by (cases "k \<le> length (snd (node x))") (simp_all add: min_def)
    moreover have "length (snd c) \<le> length (snd (node x))" using k(2) by simp
    ultimately show ?thesis
      using x(4) unfolding contextuallyRelevant_iff by metis
  qed
  then have "scanReversed w sp (item (rev chain) 0) (rev chain) = Inr None"
    by (intro scanReversed_relevant) simp
  moreover have "normalizeOffset w x = Inr Same"
    using x(3) by (simp add: normalized_def isNormalized_True normalizeOffset_def)
  ultimately show ?thesis
    using x(2) chain by (simp add: escapeIrrelevantNode_def Let_def)
qed

lemma ascendBefore_eq:
  "(case parentNode n of
      None \<Rightarrow> Inr None
    | Some parent \<Rightarrow>
        bindE (DOMLoc_new parent (indexOf (childNodes w parent) n)) (\<lambda>l.
          bindE (contains w sp l) (\<lambda>c. Inr (if c then Some l else None)))) = ascendBefore w sp n"
  by (simp add: ascendBefore_def clip_eq split: option.splits)

lemma ascendBefore_child:
  assumes "isNode w (r, p @ [k])"
  shows "ascendBefore w sp (r, p @ [k]) = clip w sp \<lparr>node = (r, p), offset = k\<rparr>"
  using isNode_snoc(2) [OF assms]
  by (simp add: ascendBefore_def indexOf_childNodes)

lemma ascendBefore_root: "ascendBefore w sp (r, []) = Inr None"
  by (simp add: ascendBefore_def)

lemma ascendAfter_root: "ascendAfter w sp (r, []) = Inr None"
  by (simp add: ascendAfter_def)

lemma previous_unfold:
  assumes "escapeIrrelevantNode w sp start = Inr r"
  shows "previous w sp start =
     (let n = node (deref start r); off = offset (deref start r) in
      if nodeType w n = TEXT_NODE then
        (if 1 \<le> off then clip w sp \<lparr>node = n, offset = off - 1\<rparr>
         else ascendBefore w sp n)
      else if nodeType w n = OTHER_NODE then Inl InternalError
      else if 1 \<le> off \<and> off - 1 < length (childNodes w n) then
        (if isRelevant w sp (childNodes w n ! (off - 1))
         then clip w sp \<lparr>node = childNodes w n ! (off - 1),
                          offset = bound w (childNodes w n ! (off - 1))\<rparr>
         else clip w sp \<lparr>node = n, offset = off - 1\<rparr>)
      else ascendBefore w sp n)"
proof -
  let ?n = "node (deref start r)" and ?off = "offset (deref start r)"
  have it: "item (childNodes w ?n) (int ?off - 1) =
      (if 1 \<le> ?off \<and> ?off - 1 < length (childNodes w ?n)
       then Some (childNodes w ?n ! (?off - 1)) else None)"
    by (auto simp: item_def nat_diff_distrib')
  have new: "\<And>m. 1 \<le> ?off \<Longrightarrow> DOMLoc_new m (int ?off - 1) = Inr \<lparr>node = m, offset = ?off - 1\<rparr>"
    by (simp add: DOMLoc_new_def nat_diff_distrib')
  have pos: "0 \<le> int ?off - 1 \<longleftrightarrow> 1 \<le> ?off" by auto
  show ?thesis
    by (cases "nodeType w ?n")
       (simp_all add: previous_def assms Let_def it new pos clip_eq ascendBefore_eq bound_def)
qed

lemma clip_contained: "contains w sp l = Inr True \<Longrightarrow> clip w sp l = Inr (Some l)"
  by (simp add: clip_def)

lemma childNodes_nth:
  "i < length (childNodes w (r, p)) \<Longrightarrow> childNodes w (r, p) ! i = (r, p @ [i])"
  by (auto simp: childNodes_def split: option.splits)

lemma isNode_snoc_iff:
  "isNode w (r, p @ [k]) \<longleftrightarrow> k < length (childNodes w (r, p))"
  by (auto simp: isNode_def lookup_def subtree_append childNodes_def split: option.splits)

lemma text_no_children: "nodeType w n = TEXT_NODE \<Longrightarrow> childNodes w n = []"
proof -
  have "kindOf t = TEXT_NODE \<Longrightarrow> childrenOf t = []" for t by (cases t) simp_all
  then show "nodeType w n = TEXT_NODE \<Longrightarrow> childNodes w n = []"
    by (auto simp: nodeType_def childNodes_def split: option.splits)
qed

lemma other_no_children: "nodeType w n = OTHER_NODE \<Longrightarrow> childNodes w n = []"
proof -
  have "kindOf t = OTHER_NODE \<Longrightarrow> childrenOf t = []" for t by (cases t) simp_all
  then show "nodeType w n = OTHER_NODE \<Longrightarrow> childNodes w n = []"
    by (auto simp: nodeType_def childNodes_def split: option.splits)
qed

lemma children_le_bound: "length (childNodes w n) \<le> bound w n"
  by (simp add: bound_def text_no_children)

lemma bound_container: "nodeType w n \<noteq> TEXT_NODE \<Longrightarrow> bound w n = length (childNodes w n)"
  by (simp add: bound_def)

lemma bound_text: "nodeType w n = TEXT_NODE \<Longrightarrow> bound w n = textLength w n"
  by (simp add: bound_def)

lemma isRelevant_supported: "isRelevant w sp n \<Longrightarrow> nodeType w n \<noteq> OTHER_NODE"
  by (auto simp: isRelevant_def)

lemma ctx_self:
  "contextuallyRelevant w sp n \<Longrightarrow> length (snd (spaceRoot sp)) \<le> length (snd n) \<Longrightarrow>
   isRelevant w sp n"
  unfolding contextuallyRelevant_iff by (metis order_refl prod.collapse take_all)

lemma ctx_parent:
  "contextuallyRelevant w sp (r, p @ [k]) \<Longrightarrow> contextuallyRelevant w sp (r, p)"
  unfolding contextuallyRelevant_iff
proof (intro allI impI)
  fix j
  assume h: "\<forall>k'. length (snd (spaceRoot sp)) \<le> k' \<and> k' \<le> length (snd (r, p @ [k])) \<longrightarrow>
      isRelevant w sp (fst (r, p @ [k]), take k' (snd (r, p @ [k])))"
    and j: "length (snd (spaceRoot sp)) \<le> j \<and> j \<le> length (snd (r, p))"
  from j have "length (snd (spaceRoot sp)) \<le> j \<and> j \<le> length (snd (r, p @ [k]))" by simp
  with h have "isRelevant w sp (fst (r, p @ [k]), take j (snd (r, p @ [k])))" by blast
  with j show "isRelevant w sp (fst (r, p), take j (snd (r, p)))" by simp
qed

lemma ctx_child:
  assumes "contextuallyRelevant w sp (r, p)" "isRelevant w sp (r, p @ [k])"
  shows "contextuallyRelevant w sp (r, p @ [k])"
  unfolding contextuallyRelevant_iff
proof (intro allI impI)
  fix j
  assume j: "length (snd (spaceRoot sp)) \<le> j \<and> j \<le> length (snd (r, p @ [k]))"
  show "isRelevant w sp (fst (r, p @ [k]), take j (snd (r, p @ [k])))"
  proof (cases "j \<le> length p")
    case True
    with j assms(1) have "isRelevant w sp (fst (r, p), take j (snd (r, p)))"
      unfolding contextuallyRelevant_iff by simp
    with True show ?thesis by simp
  next
    case False
    with j have "j = Suc (length p)" by simp
    with assms(2) show ?thesis by simp
  qed
qed

lemma ctx_ancestor:
  assumes "contextuallyRelevant w sp (r, p @ k # s)"
    and "length (snd (spaceRoot sp)) \<le> Suc (length p)"
  shows "isRelevant w sp (r, p @ [k])"
proof -
  have "length (snd (spaceRoot sp)) \<le> Suc (length p) \<and>
        Suc (length p) \<le> length (snd (r, p @ k # s))"
    using assms(2) by simp
  with assms(1)
  have "isRelevant w sp (fst (r, p @ k # s), take (Suc (length p)) (snd (r, p @ k # s)))"
    unfolding contextuallyRelevant_iff by blast
  then show ?thesis by simp
qed

lemma key_decomp:
  assumes "key l = z @ k # s" "s \<noteq> []"
  shows "\<exists>s'. snd (node l) = z @ k # s' \<and> s = s' @ [offset l]"
proof -
  from assms(2) obtain s' a where s: "s = s' @ [a]" by (cases s rule: rev_cases) auto
  with assms(1) have "snd (node l) @ [offset l] = (z @ k # s') @ [a]" by (simp add: key_def)
  then have "snd (node l) = z @ k # s' \<and> offset l = a" by (simp only: append1_eq_conv)
  with s show ?thesis by simp
qed

lemma less_two_Suc [simp]: "(q::nat list) @ [k, b] < q @ [Suc k]"
  using less_append_same [of q "[k, b]" "[Suc k]"] by simp

lemma less_snoc_Suc [simp]: "(q::nat list) @ [k] < q @ [Suc k]"
  using less_append_same [of q "[k]" "[Suc k]"] by simp

lemma less_snoc_snoc [simp]: "(q::nat list) @ [k] < q @ [k, b]"
  using less_append_same [of q "[k]" "[k, b]"] by simp

lemma DOMLoc_eqI: "node x = n \<Longrightarrow> offset x = off \<Longrightarrow> (x::DOMLoc) = \<lparr>node = n, offset = off\<rparr>"
  by simp

lemma next_then_previous:
  assumes sp: "isNode w (node (min_loc sp))" "isNode w (node (max_loc sp))"
      "fst (node (min_loc sp)) = fst (node (max_loc sp))"
    and mx: "normalized w (max_loc sp)" "contextuallyRelevant w sp (node (max_loc sp))"
    and x: "isNode w (node x)" "fst (node x) = fst (node (min_loc sp))"
      "normalized w x" "contextuallyRelevant w sp (node x)"
    and lo: "key (min_loc sp) \<le> key x" and hi: "key x < key (max_loc sp)"
  shows "\<exists>y. nextLoc w sp x = Inr (Some y) \<and> previous w sp y = Inr (Some x)"
proof -
  obtain r p where N: "node x = (r, p)" by (cases "node x")
  define off where "off = offset x"
  have xeq: "x = \<lparr>node = (r, p), offset = off\<rparr>"
    using N off_def by simp
  have kx: "key x = p @ [off]"
    by (simp add: key_def N off_def)
  have hi': "p @ [off] < key (max_loc sp)" using hi unfolding kx .
  have lo': "key (min_loc sp) \<le> p @ [off]" using lo unfolding kx .
  have nodeN: "isNode w (r, p)" using x(1) N by simp
  have tree: "fst (node (max_loc sp)) = r" "fst (node (min_loc sp)) = r"
    using x(2) sp(3) N by simp_all
  have cx: "contains w sp x = Inr True"
    using contains_keys [OF sp x(1)] x(2) lo hi by simp
  have clipx: "clip w sp x = Inr (Some x)" using cx by (rule clip_contained)
  have esc: "escapeIrrelevantNode w sp x = Inr Same"
    by (rule escape_same [OF sp x(1) cx x(3,4)])
  have root: "length (snd (spaceRoot sp)) \<le> length p"
    using loc_in_root [OF lo less_imp_le [OF hi]] N by auto
  have ctxN: "contextuallyRelevant w sp (r, p)" using x(4) N by simp
  have relN: "isRelevant w sp (r, p)" using ctx_self [OF ctxN] root by simp
  have kindN: "nodeType w (r, p) \<noteq> OTHER_NODE" using relN by (rule isRelevant_supported)
  have ob: "off \<le> bound w (r, p)" using x(3) N off_def by (simp add: normalized_iff)
  obtain pm where pm: "node (max_loc sp) = (r, pm)"
    using tree(1) by (cases "node (max_loc sp)") auto
  have kmax: "key (max_loc sp) = pm @ [offset (max_loc sp)]" by (simp add: key_def pm)
  have omax: "offset (max_loc sp) \<le> bound w (r, pm)"
    using mx(1) pm by (simp add: normalized_iff)
  have nodeM: "isNode w (r, pm)" using sp(2) pm by simp
  have ctxM: "contextuallyRelevant w sp (r, pm)" using mx(2) pm by simp

  have cand: "escapeIrrelevantNode w sp y = Inr Same \<and> clip w sp y = Inr (Some y)"
    if "isNode w (node y)" "fst (node y) = r" "p @ [off] < key y" "key y \<le> key (max_loc sp)"
      "normalized w y" "contextuallyRelevant w sp (node y)" for y
  proof -
    have "key (min_loc sp) \<le> key y" using lo' that(3) by simp
    then have cy: "contains w sp y = Inr True"
      using contains_keys [OF sp that(1)] that(2,4) tree by simp
    from escape_same [OF sp that(1) cy that(5,6)] clip_contained [OF cy]
    show ?thesis by simp
  qed

  \<comment> \<open>the maximum cannot lie below the child at the offset unless that child is relevant and
      a node with children\<close>
  have below_child: "isRelevant w sp (r, p @ [k]) \<and> k < length (childNodes w (r, p))"
    if "key (max_loc sp) = p @ k # s" "s \<noteq> []" for k s
  proof -
    from key_decomp [OF that] obtain s' where s': "pm = p @ k # s'" by (auto simp: pm)
    have "isRelevant w sp (r, p @ [k])"
      using ctx_ancestor [of w sp r p k s'] ctxM root s' by simp
    moreover have "k < length (childNodes w (r, p))"
      using isNode_child(2) [of w r p k s'] nodeM s' by simp
    ultimately show ?thesis by simp
  qed

  consider
    (inside) "nodeType w (r, p) = TEXT_NODE" "off + 1 \<le> textLength w (r, p)"
  | (child_rel) "nodeType w (r, p) \<noteq> TEXT_NODE" "off < length (childNodes w (r, p))"
      "isRelevant w sp (r, p @ [off])"
  | (child_irr) "nodeType w (r, p) \<noteq> TEXT_NODE" "off < length (childNodes w (r, p))"
      "\<not> isRelevant w sp (r, p @ [off])"
  | (at_end) "off = bound w (r, p)" "nextLoc w sp x = ascendAfter w sp (r, p)"
  proof (cases "nodeType w (r, p) = TEXT_NODE")
    case True
    show ?thesis
    proof (cases "off + 1 \<le> textLength w (r, p)")
      case False
      with True ob have "off = bound w (r, p)" by (simp add: bound_text)
      moreover have "nextLoc w sp x = ascendAfter w sp (r, p)"
        using nextLoc_unfold [OF esc] True False by (simp add: Let_def N off_def)
      ultimately show ?thesis by (rule at_end)
    qed (rule inside [OF True])
  next
    case False
    show ?thesis
    proof (cases "off < length (childNodes w (r, p))")
      case True
      with False child_rel child_irr show ?thesis by blast
    next
      case nochild: False
      with False ob have "off = bound w (r, p)" by (simp add: bound_container)
      moreover have "nextLoc w sp x = ascendAfter w sp (r, p)"
        using nextLoc_unfold [OF esc] False nochild kindN by (simp add: Let_def N off_def)
      ultimately show ?thesis by (rule at_end)
    qed
  qed
  then show ?thesis
  proof cases
    case inside
    let ?y = "\<lparr>node = (r, p), offset = off + 1\<rparr>"
    have nxt: "nextLoc w sp x = clip w sp ?y"
      using nextLoc_unfold [OF esc] inside by (simp add: Let_def N off_def)
    have le: "key ?y \<le> key (max_loc sp)"
    proof (rule ccontr)
      assume "\<not> key ?y \<le> key (max_loc sp)"
      then have "key (max_loc sp) < p @ [Suc off]" by (simp add: key_def)
      from between_succ [OF hi' this]
      obtain s where "s \<noteq> []" "key (max_loc sp) = p @ off # s" by auto
      from below_child [OF this(2,1)] show False
        using text_no_children [OF inside(1)] by simp
    qed
    have "normalized w ?y"
      using inside kindN by (simp add: normalized_iff bound_text)
    from cand [of ?y] this le nodeN ctxN
    have y: "escapeIrrelevantNode w sp ?y = Inr Same" "clip w sp ?y = Inr (Some ?y)"
      by (simp_all add: key_def)
    have "previous w sp ?y = clip w sp \<lparr>node = (r, p), offset = off\<rparr>"
      using previous_unfold [OF y(1)] inside(1) by (simp add: Let_def)
    with nxt y(2) clipx xeq show ?thesis by simp
  next
    case child_rel
    let ?c = "(r, p @ [off])"
    let ?y = "\<lparr>node = ?c, offset = 0\<rparr>"
    have nxt: "nextLoc w sp x = clip w sp ?y"
      using nextLoc_unfold [OF esc] child_rel kindN
      by (simp add: Let_def N off_def childNodes_nth)
    have nodeC: "isNode w ?c" using child_rel(2) by (simp add: isNode_snoc_iff)
    have le: "key ?y \<le> key (max_loc sp)"
      using less_snoc0 [OF hi'] by (simp add: key_def)
    have "normalized w ?y"
      using isRelevant_supported [OF child_rel(3)] by (simp add: normalized_iff)
    moreover have "contextuallyRelevant w sp ?c"
      using ctx_child [OF ctxN child_rel(3)] .
    moreover have "p @ [off] < key ?y" by (simp add: key_def)
    ultimately have y: "escapeIrrelevantNode w sp ?y = Inr Same" "clip w sp ?y = Inr (Some ?y)"
      using cand [of ?y] le nodeC by simp_all
    have "previous w sp ?y = ascendBefore w sp ?c"
      using previous_unfold [OF y(1)] isRelevant_supported [OF child_rel(3)]
      by (simp add: Let_def)
    also have "\<dots> = clip w sp \<lparr>node = (r, p), offset = off\<rparr>"
      using ascendBefore_child [OF nodeC] .
    finally show ?thesis using nxt y(2) clipx xeq by simp
  next
    case child_irr
    let ?y = "\<lparr>node = (r, p), offset = off + 1\<rparr>"
    have nxt: "nextLoc w sp x = clip w sp ?y"
      using nextLoc_unfold [OF esc] child_irr kindN
      by (simp add: Let_def N off_def childNodes_nth)
    have le: "key ?y \<le> key (max_loc sp)"
    proof (rule ccontr)
      assume "\<not> key ?y \<le> key (max_loc sp)"
      then have "key (max_loc sp) < p @ [Suc off]" by (simp add: key_def)
      from between_succ [OF hi' this]
      obtain s where "s \<noteq> []" "key (max_loc sp) = p @ off # s" by auto
      from below_child [OF this(2,1)] child_irr(3) show False by simp
    qed
    have "normalized w ?y"
      using child_irr kindN by (simp add: normalized_iff bound_container)
    from cand [of ?y] this le nodeN ctxN
    have y: "escapeIrrelevantNode w sp ?y = Inr Same" "clip w sp ?y = Inr (Some ?y)"
      by (simp_all add: key_def)
    have "previous w sp ?y = clip w sp \<lparr>node = (r, p), offset = off\<rparr>"
      using previous_unfold [OF y(1)] child_irr kindN by (simp add: Let_def childNodes_nth)
    with nxt y(2) clipx xeq show ?thesis by simp
  next
    case at_end
    \<comment> \<open>nothing of the space lies in the node after its end\<close>
    have beyond: False if "key (max_loc sp) = p @ j # s" "bound w (r, p) < j \<or> (bound w (r, p) = j \<and> s \<noteq> [])"
      for j s
    proof (cases "s = []")
      case True
      with that(1) have "pm = p" "offset (max_loc sp) = j" by (simp_all add: kmax)
      with omax that(2) True show False by simp
    next
      case False
      from key_decomp [OF that(1) False] obtain s' where "pm = p @ j # s'" by (auto simp: pm)
      then have "j < length (childNodes w (r, p))"
        using isNode_child(2) [of w r p j s'] nodeM by simp
      with children_le_bound [of w "(r, p)"] that(2) show False by simp
    qed
    show ?thesis
    proof (cases p rule: rev_cases)
      case Nil
      from hi' at_end(1) Nil have "[bound w (r, p)] < key (max_loc sp)" by simp
      then obtain j s where "key (max_loc sp) = j # s" "bound w (r, p) < j \<or> (bound w (r, p) = j \<and> s \<noteq> [])"
        by (cases "key (max_loc sp)") auto
      with beyond [of j s] Nil show ?thesis by simp
    next
      case (snoc q k)
      let ?y = "\<lparr>node = (r, q), offset = k + 1\<rparr>"
      have nodeN': "isNode w (r, q @ [k])" using nodeN snoc by simp
      have nxt: "nextLoc w sp x = clip w sp ?y"
        using at_end(2) ascendAfter_child [OF nodeN'] snoc by simp
      have kk: "k < length (childNodes w (r, q))" using isNode_snoc(2) [OF nodeN'] .
      have le: "key ?y \<le> key (max_loc sp)"
      proof (rule ccontr)
        assume "\<not> key ?y \<le> key (max_loc sp)"
        then have "key (max_loc sp) < q @ [Suc k]" by (simp add: key_def)
        moreover have "q @ [k, bound w (r, p)] < key (max_loc sp)"
          using hi' at_end(1) snoc by simp
        ultimately obtain j s where "key (max_loc sp) = q @ k # j # s"
          "bound w (r, p) < j \<or> (bound w (r, p) = j \<and> s \<noteq> [])"
          using between_end by blast
        with beyond [of j s] snoc show False by simp
      qed
      have kindP: "nodeType w (r, q) \<noteq> OTHER_NODE" "nodeType w (r, q) \<noteq> TEXT_NODE"
        using kk other_no_children [of w "(r, q)"] text_no_children [of w "(r, q)"] by auto
      have "normalized w ?y"
        using kk kindP by (simp add: normalized_iff bound_container)
      moreover have "contextuallyRelevant w sp (r, q)"
        using ctx_parent [of w sp r q k] ctxN snoc by simp
      moreover have "p @ [off] < key ?y"
        using snoc at_end(1) by (simp add: key_def)
      ultimately have y: "escapeIrrelevantNode w sp ?y = Inr Same" "clip w sp ?y = Inr (Some ?y)"
        using cand [of ?y] le isNode_snoc(1) [OF nodeN'] by simp_all
      have "previous w sp ?y = clip w sp \<lparr>node = (r, q @ [k]), offset = bound w (r, q @ [k])\<rparr>"
        using previous_unfold [OF y(1)] kindP kk relN snoc
        by (simp add: Let_def childNodes_nth)
      also have "\<dots> = clip w sp x"
        using xeq at_end(1) snoc by simp
      finally show ?thesis using nxt y(2) clipx by simp
    qed
  qed
qed

lemma previous_then_next:
  assumes sp: "isNode w (node (min_loc sp))" "isNode w (node (max_loc sp))"
      "fst (node (min_loc sp)) = fst (node (max_loc sp))"
    and mn: "normalized w (min_loc sp)" "contextuallyRelevant w sp (node (min_loc sp))"
    and x: "isNode w (node x)" "fst (node x) = fst (node (min_loc sp))"
      "normalized w x" "contextuallyRelevant w sp (node x)"
    and lo: "key (min_loc sp) < key x" and hi: "key x \<le> key (max_loc sp)"
  shows "\<exists>y. previous w sp x = Inr (Some y) \<and> nextLoc w sp y = Inr (Some x)"
proof -
  obtain r p where N: "node x = (r, p)" by (cases "node x")
  define off where "off = offset x"
  have xeq: "x = \<lparr>node = (r, p), offset = off\<rparr>"
    using N off_def by simp
  have kx: "key x = p @ [off]"
    by (simp add: key_def N off_def)
  have hi': "p @ [off] \<le> key (max_loc sp)" using hi unfolding kx .
  have lo': "key (min_loc sp) < p @ [off]" using lo unfolding kx .
  have nodeN: "isNode w (r, p)" using x(1) N by simp
  have tree: "fst (node (max_loc sp)) = r" "fst (node (min_loc sp)) = r"
    using x(2) sp(3) N by simp_all
  have cx: "contains w sp x = Inr True"
    using contains_keys [OF sp x(1)] x(2) lo hi by simp
  have clipx: "clip w sp x = Inr (Some x)" using cx by (rule clip_contained)
  have esc: "escapeIrrelevantNode w sp x = Inr Same"
    by (rule escape_same [OF sp x(1) cx x(3,4)])
  have root: "length (snd (spaceRoot sp)) \<le> length p"
    using loc_in_root [OF less_imp_le [OF lo] hi] N by auto
  have ctxN: "contextuallyRelevant w sp (r, p)" using x(4) N by simp
  have relN: "isRelevant w sp (r, p)" using ctx_self [OF ctxN] root by simp
  have kindN: "nodeType w (r, p) \<noteq> OTHER_NODE" using relN by (rule isRelevant_supported)
  have ob: "off \<le> bound w (r, p)" using x(3) N off_def by (simp add: normalized_iff)
  obtain pn where pn: "node (min_loc sp) = (r, pn)"
    using tree(2) by (cases "node (min_loc sp)") auto
  have kmin: "key (min_loc sp) = pn @ [offset (min_loc sp)]" by (simp add: key_def pn)
  have omin: "offset (min_loc sp) \<le> bound w (r, pn)"
    using mn(1) pn by (simp add: normalized_iff)
  have nodeM: "isNode w (r, pn)" using sp(1) pn by simp
  have ctxM: "contextuallyRelevant w sp (r, pn)" using mn(2) pn by simp

  have cand: "escapeIrrelevantNode w sp y = Inr Same \<and> clip w sp y = Inr (Some y)"
    if "isNode w (node y)" "fst (node y) = r" "key (min_loc sp) \<le> key y" "key y < p @ [off]"
      "normalized w y" "contextuallyRelevant w sp (node y)" for y
  proof -
    have "key y \<le> key (max_loc sp)" using hi' that(4) by simp
    then have cy: "contains w sp y = Inr True"
      using contains_keys [OF sp that(1)] that(2,3) tree by simp
    from escape_same [OF sp that(1) cy that(5,6)] clip_contained [OF cy]
    show ?thesis by simp
  qed

  have below_child: "isRelevant w sp (r, p @ [k]) \<and> k < length (childNodes w (r, p))"
    if "key (min_loc sp) = p @ k # s" "s \<noteq> []" for k s
  proof -
    from key_decomp [OF that] obtain s' where s': "pn = p @ k # s'" by (auto simp: pn)
    have "isRelevant w sp (r, p @ [k])"
      using ctx_ancestor [of w sp r p k s'] ctxM root s' by simp
    moreover have "k < length (childNodes w (r, p))"
      using isNode_child(2) [of w r p k s'] nodeM s' by simp
    ultimately show ?thesis by simp
  qed

  show ?thesis
  proof (cases off)
    case 0
    have prev: "previous w sp x = ascendBefore w sp (r, p)"
      using previous_unfold [OF esc] 0 kindN by (simp add: Let_def N off_def)
    show ?thesis
    proof (cases p rule: rev_cases)
      case Nil
      with lo' 0 kmin show ?thesis using not_less_snoc0 [of pn "offset (min_loc sp)"] by simp
    next
      case (snoc q k)
      let ?y = "\<lparr>node = (r, q), offset = k\<rparr>"
      have nodeN': "isNode w (r, q @ [k])" using nodeN snoc by simp
      have prv: "previous w sp x = clip w sp ?y"
        using prev ascendBefore_child [OF nodeN'] snoc by simp
      have kk: "k < length (childNodes w (r, q))" using isNode_snoc(2) [OF nodeN'] .
      have "key (min_loc sp) < (q @ [k]) @ [0]" using lo' snoc 0 by simp
      from less_snoc0_le [OF this] have ge: "key (min_loc sp) \<le> key ?y"
        by (simp add: key_def)
      have kindP: "nodeType w (r, q) \<noteq> OTHER_NODE" "nodeType w (r, q) \<noteq> TEXT_NODE"
        using kk other_no_children [of w "(r, q)"] text_no_children [of w "(r, q)"] by auto
      have "normalized w ?y"
        using kk kindP by (simp add: normalized_iff bound_container)
      moreover have "contextuallyRelevant w sp (r, q)"
        using ctx_parent [of w sp r q k] ctxN snoc by simp
      moreover have "key ?y < p @ [off]"
        using snoc 0 by (simp add: key_def)
      ultimately have y: "escapeIrrelevantNode w sp ?y = Inr Same" "clip w sp ?y = Inr (Some ?y)"
        using cand [of ?y] ge isNode_snoc(1) [OF nodeN'] by simp_all
      have "nextLoc w sp ?y = clip w sp \<lparr>node = (r, q @ [k]), offset = 0\<rparr>"
        using nextLoc_unfold [OF y(1)] kindP kk relN snoc
        by (simp add: Let_def childNodes_nth)
      also have "\<dots> = clip w sp x"
        using xeq 0 snoc by simp
      finally show ?thesis using prv y(2) clipx by simp
    qed
  next
    case (Suc o')
    show ?thesis
    proof (cases "nodeType w (r, p) = TEXT_NODE")
      case True
      let ?y = "\<lparr>node = (r, p), offset = o'\<rparr>"
      have prv: "previous w sp x = clip w sp ?y"
        using previous_unfold [OF esc] True Suc by (simp add: Let_def N off_def)
      have ge: "key (min_loc sp) \<le> key ?y"
      proof (rule ccontr)
        assume "\<not> key (min_loc sp) \<le> key ?y"
        then have "p @ [o'] < key (min_loc sp)" by (simp add: key_def)
        from between_succ [OF this] lo' Suc
        obtain s where "s \<noteq> []" "key (min_loc sp) = p @ o' # s" by auto
        from below_child [OF this(2,1)] show False
          using text_no_children [OF True] by simp
      qed
      have "normalized w ?y"
        using ob Suc kindN by (simp add: normalized_iff)
      moreover have "key ?y < p @ [off]" using Suc by (simp add: key_def)
      ultimately have y: "escapeIrrelevantNode w sp ?y = Inr Same" "clip w sp ?y = Inr (Some ?y)"
        using cand [of ?y] ge nodeN ctxN by simp_all
      have "nextLoc w sp ?y = clip w sp \<lparr>node = (r, p), offset = o' + 1\<rparr>"
        using nextLoc_unfold [OF y(1)] True ob Suc by (simp add: Let_def bound_text)
      with prv y(2) clipx xeq Suc show ?thesis by simp
    next
      case False
      have kk: "o' < length (childNodes w (r, p))"
        using ob Suc False by (simp add: bound_container)
      let ?c = "(r, p @ [o'])"
      have nodeC: "isNode w ?c" using kk by (simp add: isNode_snoc_iff)
      show ?thesis
      proof (cases "isRelevant w sp ?c")
        case True
        let ?y = "\<lparr>node = ?c, offset = bound w ?c\<rparr>"
        have prv: "previous w sp x = clip w sp ?y"
          using previous_unfold [OF esc] False kindN Suc kk True
          by (simp add: Let_def N off_def childNodes_nth)
        have beyond: False
          if "key (min_loc sp) = p @ o' # j # s" "bound w ?c < j \<or> (bound w ?c = j \<and> s \<noteq> [])"
          for j s
        proof (cases "s = []")
          case True
          with that(1) have "pn = p @ [o']" "offset (min_loc sp) = j" by (simp_all add: kmin)
          with omin that(2) True show False by simp
        next
          case False
          from that(1) have "key (min_loc sp) = (p @ [o']) @ j # s" by simp
          from key_decomp [OF this False] obtain s' where "pn = (p @ [o']) @ j # s'"
            by (auto simp: pn)
          then have "j < length (childNodes w ?c)"
            using isNode_child(2) [of w r "p @ [o']" j s'] nodeM by simp
          with children_le_bound [of w ?c] that(2) show False by simp
        qed
        have ge: "key (min_loc sp) \<le> key ?y"
        proof (rule ccontr)
          assume "\<not> key (min_loc sp) \<le> key ?y"
          then have "p @ [o', bound w ?c] < key (min_loc sp)" by (simp add: key_def)
          moreover have "key (min_loc sp) < p @ [Suc o']" using lo' Suc by simp
          ultimately obtain j s where "key (min_loc sp) = p @ o' # j # s"
            "bound w ?c < j \<or> (bound w ?c = j \<and> s \<noteq> [])"
            using between_end by blast
          with beyond show False by blast
        qed
        have kindC: "nodeType w ?c \<noteq> OTHER_NODE" using True by (rule isRelevant_supported)
        then have "normalized w ?y" by (simp add: normalized_iff)
        moreover have "contextuallyRelevant w sp ?c"
          using ctx_child [OF ctxN True] .
        moreover have "key ?y < p @ [off]" using Suc by (simp add: key_def)
        ultimately have y: "escapeIrrelevantNode w sp ?y = Inr Same" "clip w sp ?y = Inr (Some ?y)"
          using cand [of ?y] ge nodeC by simp_all
        have "nextLoc w sp ?y = ascendAfter w sp ?c"
          using nextLoc_unfold [OF y(1)] kindC
          by (simp add: Let_def bound_text bound_container)
        also have "\<dots> = clip w sp \<lparr>node = (r, p), offset = o' + 1\<rparr>"
          using ascendAfter_child [OF nodeC] .
        finally show ?thesis using prv y(2) clipx xeq Suc by simp
      next
        case irr: False
        let ?y = "\<lparr>node = (r, p), offset = o'\<rparr>"
        have prv: "previous w sp x = clip w sp ?y"
          using previous_unfold [OF esc] False kindN Suc kk irr
          by (simp add: Let_def N off_def childNodes_nth)
        have ge: "key (min_loc sp) \<le> key ?y"
        proof (rule ccontr)
          assume "\<not> key (min_loc sp) \<le> key ?y"
          then have "p @ [o'] < key (min_loc sp)" by (simp add: key_def)
          from between_succ [OF this] lo' Suc
          obtain s where "s \<noteq> []" "key (min_loc sp) = p @ o' # s" by auto
          from below_child [OF this(2,1)] irr show False by simp
        qed
        have "normalized w ?y"
          using ob Suc kindN by (simp add: normalized_iff)
        moreover have "key ?y < p @ [off]" using Suc by (simp add: key_def)
        ultimately have y: "escapeIrrelevantNode w sp ?y = Inr Same" "clip w sp ?y = Inr (Some ?y)"
          using cand [of ?y] ge nodeN ctxN by simp_all
        have "nextLoc w sp ?y = clip w sp \<lparr>node = (r, p), offset = o' + 1\<rparr>"
          using nextLoc_unfold [OF y(1)] False kindN kk irr
          by (simp add: Let_def childNodes_nth)
        with prv y(2) clipx xeq Suc show ?thesis by simp
      qed
    qed
  qed
qed

lemma normalized_isNode: "normalized w x \<Longrightarrow> isNode w (node x)"
  by (rule isNode_nodeType) (simp add: normalized_iff)

lemma compare_same_tree: "compare w a b = Inr c \<Longrightarrow> fst (node a) = fst (node b)"
  using compare_disconnected [of a b w] by (cases "fst (node a) = fst (node b)") auto

lemma compare_less_key:
  assumes "isNode w (node a)" "isNode w (node b)" "compare w a b = Inr (- 1)"
  shows "key a < key b"
  using compare_lex [OF compare_same_tree [OF assms(3)] assms(1,2)] assms(3)
  by (auto simp: lexCompare_def split: if_splits)

subsection \<open>The ends of a space\<close>

lemma DOMSpace_new_Inr:
  assumes "DOMSpace_new w mn mx test = Inr sp"
  shows "min_loc sp = mn" "max_loc sp = mx"
    "isRelevant w sp (node mn)" "isRelevant w sp (node mx)"
    "fst (node mn) = fst (node mx)" "key mn \<le> key mx"
proof -
  from assms have rel: "isRelevant w (DOMSpace_init mn mx test) (node mn)"
      "isRelevant w (DOMSpace_init mn mx test) (node mx)"
    and rest: "bindE (compare w mx mn)
        (\<lambda>c. if c < 0 then Inl ReversedRangeError else Inr (DOMSpace_init mn mx test)) = Inr sp"
    by (auto simp: DOMSpace_new_def Let_def split: if_splits)
  from rest obtain c where c: "compare w mx mn = Inr c" "\<not> c < 0"
    and sp: "sp = DOMSpace_init mn mx test"
    by (auto simp: bindE_eq_Inr split: if_splits)
  show "min_loc sp = mn" "max_loc sp = mx" by (simp_all add: sp)
  show r: "isRelevant w sp (node mn)" "isRelevant w sp (node mx)"
    using rel by (simp_all add: sp)
  show t: "fst (node mn) = fst (node mx)"
    using compare_same_tree [OF c(1)] by simp
  have "compare w mx mn = Inr (lexCompare (key mx) (key mn))"
    using t r by (intro compare_lex) (simp_all add: isRelevant_isNode)
  with c show "key mn \<le> key mx" by (auto simp: lexCompare_def split: if_splits)
qed

lemma clip_outside:
  assumes "isNode w (node (min_loc sp))" "isNode w (node (max_loc sp))"
    and "fst (node (min_loc sp)) = fst (node (max_loc sp))"
    and "isNode w (node l)"
    and "key l < key (min_loc sp) \<or> key (max_loc sp) < key l"
  shows "clip w sp l = Inr None"
proof -
  have "contains w sp l \<noteq> Inr True"
    using contains_keys [OF assms(1-4)] assms(5) by auto
  then show ?thesis by (simp add: clip_def)
qed

lemma normalizeOffset_deref:
  assumes "nodeType w (node l) \<noteq> OTHER_NODE"
  shows "\<exists>r. normalizeOffset w l = Inr r \<and> node (deref l r) = node l \<and>
             offset (deref l r) = min (offset l) (bound w (node l))"
  using normalizeOffset_supported [OF assms] by (auto simp: min_def)

lemma less_snoc_offset [simp]: "a < b \<Longrightarrow> (p::nat list) @ [a] < p @ [b]"
  using less_append_same [of p "[a]" "[b]"] by simp

lemma less_snoc_two [simp]: "a < b \<Longrightarrow> (p::nat list) @ [a, c] < p @ [b]"
  using less_append_same [of p "[a, c]" "[b]"] by simp

lemma less_two_snoc [simp]: "a < b \<Longrightarrow> (p::nat list) @ a # s < p @ [b]"
  using less_append_same [of p "a # s" "[b]"] by simp

lemma less_prefix_snoc [simp]: "(p::nat list) @ [k] < p @ k # s @ [a]"
  using less_append_same [of "p @ [k]" "[]" "s @ [a]"] by simp

lemma previous_min:
  assumes "DOMSpace_new w mn mx test = Inr sp"
  shows "previous w sp (min_loc sp) = Inr None"
proof -
  note c = DOMSpace_new_Inr [OF assms]
  obtain r p where N: "node mn = (r, p)" by (cases "node mn")
  define off where "off = offset mn"
  have kmin: "key (min_loc sp) = p @ [off]" by (simp add: c key_def N off_def)
  have nodes: "isNode w (node (min_loc sp))" "isNode w (node (max_loc sp))"
    "fst (node (min_loc sp)) = fst (node (max_loc sp))"
    using c by (simp_all add: isRelevant_isNode)
  have nodeN: "isNode w (r, p)" using nodes(1) c N by simp
  have kindN: "nodeType w (r, p) \<noteq> OTHER_NODE"
    using isRelevant_supported [OF c(3)] N by simp
  have out: "clip w sp l = Inr None" if "isNode w (node l)" "key l < p @ [off]" for l
    using clip_outside [OF nodes that(1)] that(2) kmin by simp
  have cm: "contains w sp (min_loc sp) = Inr True"
    using contains_keys [OF nodes nodes(1)] c by simp
  define o' where "o' = min off (bound w (r, p))"
  have o': "o' \<le> off" "o' \<le> bound w (r, p)" by (simp_all add: o'_def)
  from normalizeOffset_deref [of w mn] kindN N
  obtain nr where nr: "normalizeOffset w mn = Inr nr" "node (deref mn nr) = (r, p)"
    "offset (deref mn nr) = o'"
    by (auto simp: off_def o'_def)
  have above: "ascendBefore w sp (r, p) = Inr None"
  proof (cases p rule: rev_cases)
    case Nil
    then show ?thesis by (simp add: ascendBefore_root)
  next
    case (snoc q k)
    with nodeN have n': "isNode w (r, q @ [k])" by simp
    have "clip w sp \<lparr>node = (r, q), offset = k\<rparr> = Inr None"
      using isNode_snoc(1) [OF n'] snoc by (intro out) (simp_all add: key_def)
    with ascendBefore_child [OF n'] snoc show ?thesis by simp
  qed
  have notin: "containsNode w sp (r, p) = Inr False"
  proof (cases p rule: rev_cases)
    case Nil
    then show ?thesis by (simp add: containsNode_root)
  next
    case (snoc q k)
    with nodeN have n': "isNode w (r, q @ [k])" by simp
    have "key \<lparr>node = (r, q), offset = k\<rparr> < key (min_loc sp)"
      unfolding kmin using snoc by (simp add: key_def)
    then have "\<not> key (min_loc sp) \<le> key \<lparr>node = (r, q), offset = k\<rparr>"
      by simp
    then have "contains w sp \<lparr>node = (r, q), offset = k\<rparr> \<noteq> Inr True"
      using contains_keys [OF nodes, of "\<lparr>node = (r, q), offset = k\<rparr>"] isNode_snoc(1) [OF n']
      by simp
    with contains_bool [of w sp "\<lparr>node = (r, q), offset = k\<rparr>"]
    have "contains w sp \<lparr>node = (r, q), offset = k\<rparr> = Inr False" by auto
    with containsNode_child [OF n'] snoc show ?thesis by simp
  qed
  have "collectAncestorsAndSelf w sp (Some (r, p)) [] = Inr []"
    using notin by (simp add: collectAncestorsAndSelf.simps)
  then have esc: "escapeIrrelevantNode w sp (min_loc sp) = Inr nr"
    using cm nr c by (simp add: escapeIrrelevantNode_def Let_def item_def)
  show ?thesis
  proof (cases "1 \<le> o'")
    case False
    with previous_unfold [OF esc] c nr kindN above show ?thesis
      by (simp add: Let_def)
  next
    case True
    have same: "clip w sp \<lparr>node = (r, p), offset = o' - 1\<rparr> = Inr None"
      using True o' nodeN by (intro out) (simp_all add: key_def)
    show ?thesis
    proof (cases "nodeType w (r, p) = TEXT_NODE")
      case isText: True
      with previous_unfold [OF esc] c nr True same show ?thesis
        by (simp add: Let_def)
    next
      case False
      with True o' have kk: "o' - 1 < length (childNodes w (r, p))"
        by (simp add: bound_container)
      then have "isNode w (r, p @ [o' - 1])" by (simp add: isNode_snoc_iff)
      then have "clip w sp \<lparr>node = (r, p @ [o' - 1]), offset = bound w (r, p @ [o' - 1])\<rparr> = Inr None"
        using True o' by (intro out) (simp_all add: key_def)
      with previous_unfold [OF esc] c nr True False kindN kk same show ?thesis
        by (simp add: Let_def childNodes_nth)
    qed
  qed
qed

lemma scanReversed_cases:
  assumes "\<And>c. c \<in> set xs \<Longrightarrow> isNode w c \<and> snd c \<noteq> []"
  shows "scanReversed w sp first xs = Inl InternalError \<or>
         scanReversed w sp first xs = Inr None \<or>
         (\<exists>r q k. (r, q @ [k]) \<in> set xs \<and> \<not> isRelevant w sp (r, q @ [k]) \<and>
            scanReversed w sp first xs = Inr (Some \<lparr>node = (r, q), offset = k\<rparr>))"
  using assms
proof (induction xs)
  case Nil
  then show ?case by simp
next
  case (Cons c xs)
  show ?case
  proof (cases "isRelevant w sp c")
    case True
    with Cons.IH Cons.prems show ?thesis by auto
  next
    case False
    show ?thesis
    proof (cases "Some c = first")
      case True
      with False show ?thesis by simp
    next
      case notfirst: False
      from Cons.prems [of c] obtain r0 q k where c: "c = (r0, q @ [k])"
        by (cases c; cases "snd c" rule: rev_cases) auto
      with Cons.prems [of c] have n: "isNode w (r0, q @ [k])" by simp
      have "scanReversed w sp first (c # xs) = Inr (Some \<lparr>node = (r0, q), offset = k\<rparr>)"
        using False notfirst isNode_snoc(2) [OF n]
        by (simp add: c indexOf_childNodes)
      moreover have "(r0, q @ [k]) \<in> set (c # xs)" using c by simp
      moreover have "\<not> isRelevant w sp (r0, q @ [k])" using False c by simp
      ultimately show ?thesis by blast
    qed
  qed
qed

lemma next_max:
  assumes "DOMSpace_new w mn mx test = Inr sp"
  shows "nextLoc w sp (max_loc sp) = Inr None \<or> nextLoc w sp (max_loc sp) = Inl InternalError"
proof -
  note c = DOMSpace_new_Inr [OF assms]
  obtain r p where N: "node mx = (r, p)" by (cases "node mx")
  define off where "off = offset mx"
  have kmax: "key (max_loc sp) = p @ [off]" by (simp add: c key_def N off_def)
  have nodes: "isNode w (node (min_loc sp))" "isNode w (node (max_loc sp))"
    "fst (node (min_loc sp)) = fst (node (max_loc sp))"
    using c by (simp_all add: isRelevant_isNode)
  have nodeN: "isNode w (r, p)" using nodes(2) c N by simp
  have relN: "isRelevant w sp (r, p)" using c(4) N by simp
  have kindN: "nodeType w (r, p) \<noteq> OTHER_NODE"
    using isRelevant_supported [OF relN] .
  have out: "clip w sp l = Inr None" if "isNode w (node l)" "p @ [off] < key l" for l
    using clip_outside [OF nodes that(1)] that(2) kmax by simp
  have cm: "contains w sp mx = Inr True"
    using contains_keys [OF nodes nodes(2)] c by simp
  define o' where "o' = min off (bound w (r, p))"
  have o': "o' < bound w (r, p) \<Longrightarrow> o' = off" by (simp add: o'_def min_def split: if_splits)
  from normalizeOffset_deref [of w mx] kindN N
  obtain nr where nr: "normalizeOffset w mx = Inr nr" "node (deref mx nr) = (r, p)"
    "offset (deref mx nr) = o'"
    by (auto simp: off_def o'_def)
  from collect_total [of "Some (r, p)" w sp "[]"] nodeN
  obtain chain where chain: "collectAncestorsAndSelf w sp (Some (r, p)) [] = Inr chain"
    by auto
  have members: "isNode w a \<and> snd a \<noteq> [] \<and> (\<exists>j. a = (r, take j p))" if "a \<in> set chain" for a
  proof -
    from collect_members [OF chain that]
    obtain j where j: "containsNode w sp a = Inr True" "a = (r, take j p)" by auto
    have "isNode w a" using isNode_take [OF nodeN, of j] j(2) by simp
    moreover have "snd a \<noteq> []"
      using j(1) by (auto simp: containsNode_def parentNode_def split: if_splits)
    ultimately show ?thesis using j(2) by blast
  qed
  have esc_def: "escapeIrrelevantNode w sp mx =
     bindE (scanReversed w sp (item (rev chain) 0) (rev chain))
       (\<lambda>found. case found of Some l \<Rightarrow> Inr (Fresh l) | None \<Rightarrow> Inr nr)"
    using cm nr chain by (simp add: escapeIrrelevantNode_def Let_def)
  have "\<And>a. a \<in> set (rev chain) \<Longrightarrow> isNode w a \<and> snd a \<noteq> []"
    using members by simp
  from scanReversed_cases [of "rev chain" w sp "item (rev chain) 0", OF this]
  consider (internal) "escapeIrrelevantNode w sp mx = Inl InternalError"
    | (normal) "escapeIrrelevantNode w sp mx = Inr nr"
    | (escaped) r' q k where "(r', q @ [k]) \<in> set chain" "\<not> isRelevant w sp (r', q @ [k])"
        "escapeIrrelevantNode w sp mx = Inr (Fresh \<lparr>node = (r', q), offset = k\<rparr>)"
    unfolding esc_def by auto
  then show ?thesis
  proof cases
    case internal
    then show ?thesis by (simp add: nextLoc_def c)
  next
    case normal
    have after: "ascendAfter w sp (r, p) = Inr None"
    proof (cases p rule: rev_cases)
      case Nil
      then show ?thesis by (simp add: ascendAfter_root)
    next
      case (snoc q k)
      with nodeN have n': "isNode w (r, q @ [k])" by simp
      have "clip w sp \<lparr>node = (r, q), offset = k + 1\<rparr> = Inr None"
        using isNode_snoc(1) [OF n'] snoc by (intro out) (simp_all add: key_def)
      with ascendAfter_child [OF n'] snoc show ?thesis by simp
    qed
    have step: "clip w sp \<lparr>node = (r, p), offset = o' + 1\<rparr> = Inr None" if "o' < bound w (r, p)"
      using o' [OF that] nodeN by (intro out) (simp_all add: key_def)
    show ?thesis
    proof (cases "nodeType w (r, p) = TEXT_NODE")
      case True
      with nextLoc_unfold [OF normal] nr after step show ?thesis
        by (simp add: Let_def c bound_text)
    next
      case False
      show ?thesis
      proof (cases "o' < length (childNodes w (r, p))")
        case nochild: False
        with nextLoc_unfold [OF normal] nr after False kindN show ?thesis
          by (simp add: Let_def c)
      next
        case True
        with False have lt: "o' < bound w (r, p)" by (simp add: bound_container)
        have "isNode w (r, p @ [o'])" using True by (simp add: isNode_snoc_iff)
        then have "clip w sp \<lparr>node = (r, p @ [o']), offset = 0\<rparr> = Inr None"
          using o' [OF lt] by (intro out) (simp_all add: key_def)
        with nextLoc_unfold [OF normal] nr False kindN True step [OF lt] show ?thesis
          by (simp add: Let_def c childNodes_nth)
      qed
    qed
  next
    case escaped
    from members [OF escaped(1)] obtain j where j: "r' = r" "q @ [k] = take j p"
      and n': "isNode w (r', q @ [k])" by auto
    have "q @ [k] \<noteq> p" using escaped(2) relN j(1) by auto
    moreover have "p = take j p @ drop j p" by simp
    ultimately obtain s where s: "p = q @ k # s"
      using j(2) by (metis append.assoc append_Cons append_Nil)
    have kk: "k < length (childNodes w (r, q))" using isNode_snoc(2) [OF n'] j(1) by simp
    have kindQ: "nodeType w (r, q) \<noteq> OTHER_NODE" "nodeType w (r, q) \<noteq> TEXT_NODE"
      using kk other_no_children [of w "(r, q)"] text_no_children [of w "(r, q)"] by auto
    have "clip w sp \<lparr>node = (r, q), offset = k + 1\<rparr> = Inr None"
      using isNode_snoc(1) [OF n'] j(1) s by (intro out) (simp_all add: key_def)
    with nextLoc_unfold [OF escaped(3)] kindQ kk escaped(2) j(1) show ?thesis
      by (simp add: Let_def c childNodes_nth)
  qed
qed

section \<open>Comparison of locations\<close>

text \<open>
  Claim C1.  For locations \<open>a\<close>, \<open>b\<close> (and \<open>c\<close>) in nodes of one tree, \<open>compare\<close>
  returns \<open>-1\<close>, \<open>0\<close> or \<open>1\<close>; a location compares equal to itself; swapping the
  arguments negates the result; the result is \<open>0\<close> exactly when \<open>equals\<close> holds; and
  the order is transitive, so that it is a total order.  Inside one node the result is
  \<open>-1\<close> exactly when the offset of \<open>a\<close> is the smaller one, and \<open>1\<close> exactly when it
  is the larger one.  When the nodes differ and
  neither contains the other, the result is \<open>-1\<close> exactly when the node of \<open>a\<close>
  precedes the node of \<open>b\<close> in document order, and \<open>1\<close> exactly when it follows.
  When one node contains the other, the result is that of \<open>pointedCompare\<close> on the
  containing location and the contained node (negated when the containing location is
  the argument): the containing location is before the contained one exactly when its
  offset is at most the index of the child that holds the contained node.
\<close>

theorem compare_total_order:
  assumes nodes: "isNode w (node a)" "isNode w (node b)" "isNode w (node c)"
    and tree: "fst (node a) = fst (node b)" "fst (node b) = fst (node c)"
  shows "\<exists>x. compare w a b = Inr x \<and> (x = - 1 \<or> x = 0 \<or> x = 1) \<and>
     compare w a a = Inr 0 \<and>
     compare w b a = Inr (- x) \<and>
     (x = 0 \<longleftrightarrow> equals a (Some b)) \<and>
     (x = - 1 \<and> compare w b c = Inr (- 1) \<longrightarrow> compare w a c = Inr (- 1)) \<and>
     (node a = node b \<longrightarrow>
        (x = - 1 \<longleftrightarrow> offset a < offset b) \<and> (x = 1 \<longleftrightarrow> offset b < offset a)) \<and>
     (node a \<noteq> node b \<and> \<not> properAncestor (node a) (node b) \<and>
      \<not> properAncestor (node b) (node a) \<longrightarrow>
        (x = - 1 \<longleftrightarrow> precedes w (node a) (node b)) \<and>
        (x = 1 \<longleftrightarrow> precedes w (node b) (node a))) \<and>
     (properAncestor (node a) (node b) \<longrightarrow>
        x = pointedCompare w (node a) (int (offset a)) (node b) \<and>
        (x = - 1 \<longleftrightarrow> offset a \<le> snd (node b) ! length (snd (node a)))) \<and>
     (properAncestor (node b) (node a) \<longrightarrow>
        x = - pointedCompare w (node b) (int (offset b)) (node a) \<and>
        (x = 1 \<longleftrightarrow> offset b \<le> snd (node a) ! length (snd (node b))))"
proof -
  let ?x = "lexCompare (key a) (key b)"
  have ab: "compare w a b = Inr ?x"
    using nodes tree by (intro compare_lex)
  have ba: "compare w b a = Inr (- ?x)"
    using nodes tree compare_lex [of b a w] by (simp add: lexCompare_flip [of "key a"])
  have aa: "compare w a a = Inr 0"
    using nodes compare_lex [of a a w] by simp
  have bc: "compare w b c = Inr (lexCompare (key b) (key c))"
    using nodes tree by (intro compare_lex)
  have ac: "compare w a c = Inr (lexCompare (key a) (key c))"
    using nodes tree by (intro compare_lex) simp_all
  have range: "?x = - 1 \<or> ?x = 0 \<or> ?x = 1"
    by (simp add: lexCompare_def)
  have eq: "?x = 0 \<longleftrightarrow> equals a (Some b)"
    using tree by (auto simp: key_eq_iff equals_def prod_eq_iff)
  have trans: "?x = - 1 \<and> compare w b c = Inr (- 1) \<longrightarrow> compare w a c = Inr (- 1)"
    by (auto simp: bc ac)
  have same: "(?x = - 1 \<longleftrightarrow> offset a < offset b) \<and> (?x = 1 \<longleftrightarrow> offset b < offset a)"
    if "node a = node b"
    using that by (simp add: key_def)
  have fork: "(?x = - 1 \<longleftrightarrow> precedes w (node a) (node b)) \<and>
      (?x = 1 \<longleftrightarrow> precedes w (node b) (node a))"
    if h: "node a \<noteq> node b \<and> \<not> properAncestor (node a) (node b) \<and>
      \<not> properAncestor (node b) (node a)"
  proof (cases "snd (node a)" "snd (node b)" rule: path_cases)
    case same
    with h tree show ?thesis by (simp add: prod_eq_iff)
  next
    case (below j r)
    with h tree show ?thesis by (auto simp: properAncestor_iff prod_eq_iff)
  next
    case (above i r)
    with h tree show ?thesis by (auto simp: properAncestor_iff prod_eq_iff)
  next
    case (fork c i j p' q')
    from key_less_fork [OF fork] key_less_fork [OF fork(2,1)] fork(3)
    show ?thesis
      using nodes tree by (simp add: precedes_iff)
  qed
  have below: "?x = pointedCompare w (node a) (int (offset a)) (node b) \<and>
      (?x = - 1 \<longleftrightarrow> offset a \<le> snd (node b) ! length (snd (node a)))"
    if h: "properAncestor (node a) (node b)"
  proof -
    from h obtain k q where b: "node b = (fst (node a), snd (node a) @ k # q)"
      by (auto simp: properAncestor_iff)
    then have sb: "snd (node b) = snd (node a) @ k # q" by simp
    have "k < length (childNodes w (fst (node a), snd (node a)))"
      using isNode_child(2) [of w "fst (node a)" "snd (node a)" k q] nodes(2) b by simp
    from pointedCompare_below [OF this, of "offset a" q]
    have "pointedCompare w (node a) (int (offset a)) (node b) = (if offset a \<le> k then - 1 else 1)"
      using b by simp
    moreover have "?x = (if offset a \<le> k then - 1 else 1)"
      using key_less_below [OF sb] key_eq_iff [of a b] sb
      by (auto simp: lexCompare_def)
    ultimately show ?thesis by (simp add: sb)
  qed
  have above: "?x = - pointedCompare w (node b) (int (offset b)) (node a) \<and>
      (?x = 1 \<longleftrightarrow> offset b \<le> snd (node a) ! length (snd (node b)))"
    if h: "properAncestor (node b) (node a)"
  proof -
    from h obtain k q where a: "node a = (fst (node b), snd (node b) @ k # q)"
      by (auto simp: properAncestor_iff)
    then have sa: "snd (node a) = snd (node b) @ k # q" by simp
    have "k < length (childNodes w (fst (node b), snd (node b)))"
      using isNode_child(2) [of w "fst (node b)" "snd (node b)" k q] nodes(1) a by simp
    from pointedCompare_below [OF this, of "offset b" q]
    have "pointedCompare w (node b) (int (offset b)) (node a) = (if offset b \<le> k then - 1 else 1)"
      using a by simp
    moreover have "?x = (if offset b \<le> k then 1 else - 1)"
      using key_less_above [OF sa] key_eq_iff [of a b] sa
      by (auto simp: lexCompare_def)
    ultimately show ?thesis by (simp add: sa)
  qed
  show ?thesis
    using ab ba aa range eq trans same fork below above
    by (intro exI [of _ ?x]) blast
qed

theorem compare_total_order_witness:
  "compare sampleForest \<lparr>node = sDiv, offset = 1\<rparr> \<lparr>node = sCd, offset = 0\<rparr> = Inr (- 1) \<and>
   compare sampleForest \<lparr>node = sCd, offset = 0\<rparr> \<lparr>node = sDiv, offset = 1\<rparr> = Inr 1 \<and>
   compare sampleForest \<lparr>node = sDiv, offset = 1\<rparr> \<lparr>node = sDoc, offset = 1\<rparr> = Inr (- 1) \<and>
   pointedCompare sampleForest sDiv 1 sCd = - 1 \<and>
   compare sampleForest \<lparr>node = sAb, offset = 0\<rparr> \<lparr>node = sAb, offset = 1\<rparr> = Inr (- 1) \<and>
   compare sampleForest \<lparr>node = sAb, offset = 1\<rparr> \<lparr>node = sAb, offset = 0\<rparr> = Inr 1"
proof -
  have 1: "compare sampleForest \<lparr>node = sDiv, offset = 1\<rparr> \<lparr>node = sCd, offset = 0\<rparr> = Inr (- 1)"
    "compare sampleForest \<lparr>node = sCd, offset = 0\<rparr> \<lparr>node = sDoc, offset = 1\<rparr> = Inr (- 1)"
    by (simp_all add: sample_compare sample_fst sample_isNode sample_snd lexCompare_def)
  have 2: "properAncestor sDiv sCd"
    by (simp add: properAncestor_def sample_defs)
  have "compare sampleForest \<lparr>node = sDiv, offset = 1\<rparr> \<lparr>node = sCd, offset = 0\<rparr> = Inr (- 1) \<and>
   compare sampleForest \<lparr>node = sCd, offset = 0\<rparr> \<lparr>node = sDiv, offset = 1\<rparr> = Inr 1 \<and>
   compare sampleForest \<lparr>node = sDiv, offset = 1\<rparr> \<lparr>node = sDoc, offset = 1\<rparr> = Inr (- 1) \<and>
   pointedCompare sampleForest sDiv 1 sCd = - 1"
    using compare_total_order [of sampleForest "\<lparr>node = sDiv, offset = 1\<rparr>"
        "\<lparr>node = sCd, offset = 0\<rparr>" "\<lparr>node = sDoc, offset = 1\<rparr>"] 1 2
    by (auto simp: sample_isNode sample_fst)
  moreover
  have "compare sampleForest \<lparr>node = sAb, offset = 0\<rparr> \<lparr>node = sAb, offset = 1\<rparr> = Inr (- 1) \<and>
   compare sampleForest \<lparr>node = sAb, offset = 1\<rparr> \<lparr>node = sAb, offset = 0\<rparr> = Inr 1"
    using compare_total_order [of sampleForest "\<lparr>node = sAb, offset = 0\<rparr>"
        "\<lparr>node = sAb, offset = 1\<rparr>" "\<lparr>node = sAb, offset = 1\<rparr>"]
    by (auto simp: sample_isNode sample_fst)
  ultimately show ?thesis by simp
qed

section \<open>Stepping back and forth\<close>

text \<open>
  Claim C2, as stated, fails.  In the space of the whole document the location
  \<open>(ab, 5)\<close> lies strictly between the endpoints, but \<open>previous\<close> first normalizes it
  to \<open>(ab, 2)\<close> and returns \<open>(ab, 1)\<close>, from where \<open>next\<close> returns \<open>(ab, 2)\<close>.  With
  the \<open>span\<close> irrelevant the location \<open>(ab, 1)\<close> lies strictly between the endpoints,
  but \<open>previous\<close> first escapes it to \<open>(div, 0)\<close> and returns \<open>(doc, 0)\<close>, from where
  \<open>next\<close> returns \<open>(div, 0)\<close>.
\<close>

theorem next_previous_inverse_counterexample:
  "compare sampleForest (min_loc sampleSpace) \<lparr>node = sAb, offset = 5\<rparr> = Inr (- 1) \<and>
   compare sampleForest \<lparr>node = sAb, offset = 5\<rparr> (max_loc sampleSpace) = Inr (- 1) \<and>
   previous sampleForest sampleSpace \<lparr>node = sAb, offset = 5\<rparr> =
     Inr (Some \<lparr>node = sAb, offset = 1\<rparr>) \<and>
   nextLoc sampleForest sampleSpace \<lparr>node = sAb, offset = 1\<rparr> =
     Inr (Some \<lparr>node = sAb, offset = 2\<rparr>) \<and>
   compare sampleForest (min_loc hiddenSpanSpace) \<lparr>node = sAb, offset = 1\<rparr> = Inr (- 1) \<and>
   compare sampleForest \<lparr>node = sAb, offset = 1\<rparr> (max_loc hiddenSpanSpace) = Inr (- 1) \<and>
   previous sampleForest hiddenSpanSpace \<lparr>node = sAb, offset = 1\<rparr> =
     Inr (Some \<lparr>node = sDoc, offset = 0\<rparr>) \<and>
   nextLoc sampleForest hiddenSpanSpace \<lparr>node = sDoc, offset = 0\<rparr> =
     Inr (Some \<lparr>node = sDiv, offset = 0\<rparr>)"
  by code_simp

text \<open>
  The endpoints matter as well.  The constructor accepts a minimum that is not normalized,
  and a minimum inside an irrelevant node; in both spaces there is a normalized location
  in a contextually relevant node, strictly between the endpoints, at which \<open>previous\<close>
  returns \<open>null\<close>.
\<close>

lemma previous_null_inside:
  "DOMSpace_new sampleForest \<lparr>node = sAb, offset = 7\<rparr> \<lparr>node = sDoc, offset = 1\<rparr> None =
     Inr lateSpace \<and>
   compare sampleForest (min_loc lateSpace) \<lparr>node = sSpan, offset = 1\<rparr> = Inr (- 1) \<and>
   compare sampleForest \<lparr>node = sSpan, offset = 1\<rparr> (max_loc lateSpace) = Inr (- 1) \<and>
   previous sampleForest lateSpace \<lparr>node = sSpan, offset = 1\<rparr> = Inr None \<and>
   DOMSpace_new sampleForest \<lparr>node = sAb, offset = 0\<rparr> \<lparr>node = sDoc, offset = 1\<rparr>
     (Some (\<lambda>n. n \<noteq> sSpan)) = Inr insideHiddenSpace \<and>
   compare sampleForest (min_loc insideHiddenSpace) \<lparr>node = sDiv, offset = 1\<rparr> = Inr (- 1) \<and>
   compare sampleForest \<lparr>node = sDiv, offset = 1\<rparr> (max_loc insideHiddenSpace) = Inr (- 1) \<and>
   previous sampleForest insideHiddenSpace \<lparr>node = sDiv, offset = 1\<rparr> = Inr None"
proof -
  have c: "compare sampleForest \<lparr>node = sDoc, offset = Suc 0\<rparr> \<lparr>node = sAb, offset = 7\<rparr> = Inr 1"
    "compare sampleForest \<lparr>node = sDoc, offset = Suc 0\<rparr> \<lparr>node = sAb, offset = 0\<rparr> = Inr 1"
    by code_simp+
  have "DOMSpace_new sampleForest \<lparr>node = sAb, offset = 7\<rparr> \<lparr>node = sDoc, offset = 1\<rparr> None =
     Inr lateSpace"
    by (simp add: DOMSpace_new_def c sample_nodeType lateSpace_def)
  moreover have "DOMSpace_new sampleForest \<lparr>node = sAb, offset = 0\<rparr> \<lparr>node = sDoc, offset = 1\<rparr>
     (Some (\<lambda>n. n \<noteq> sSpan)) = Inr insideHiddenSpace"
    by (simp add: DOMSpace_new_def c sample_nodeType insideHiddenSpace_def)
       (simp add: sample_defs)
  moreover have
    "compare sampleForest (min_loc lateSpace) \<lparr>node = sSpan, offset = 1\<rparr> = Inr (- 1)"
    "compare sampleForest \<lparr>node = sSpan, offset = 1\<rparr> (max_loc lateSpace) = Inr (- 1)"
    "previous sampleForest lateSpace \<lparr>node = sSpan, offset = 1\<rparr> = Inr None"
    "compare sampleForest (min_loc insideHiddenSpace) \<lparr>node = sDiv, offset = 1\<rparr> = Inr (- 1)"
    "compare sampleForest \<lparr>node = sDiv, offset = 1\<rparr> (max_loc insideHiddenSpace) = Inr (- 1)"
    "previous sampleForest insideHiddenSpace \<lparr>node = sDiv, offset = 1\<rparr> = Inr None"
    by code_simp+
  ultimately show ?thesis by simp
qed

text \<open>
  Claim C2, amended.  Let the endpoints of a space be normalized locations in
  contextually relevant nodes.  Then for every normalized location \<open>x\<close> in a contextually
  relevant node that lies strictly between the minimum and the maximum, \<open>previous\<close>
  returns a location from which \<open>next\<close> returns \<open>x\<close>, and \<open>next\<close> returns a location
  from which \<open>previous\<close> returns \<open>x\<close>.
\<close>

theorem next_previous_inverse:
  assumes ends: "normalized w (min_loc sp)" "normalized w (max_loc sp)"
      "contextuallyRelevant w sp (node (min_loc sp))"
      "contextuallyRelevant w sp (node (max_loc sp))"
    and x: "normalized w x" "contextuallyRelevant w sp (node x)"
    and between: "compare w (min_loc sp) x = Inr (- 1)" "compare w x (max_loc sp) = Inr (- 1)"
  shows "\<exists>y z. previous w sp x = Inr (Some y) \<and> nextLoc w sp y = Inr (Some x) \<and>
               nextLoc w sp x = Inr (Some z) \<and> previous w sp z = Inr (Some x)"
proof -
  note nodes = normalized_isNode [OF ends(1)] normalized_isNode [OF ends(2)]
    normalized_isNode [OF x(1)]
  have tree: "fst (node x) = fst (node (min_loc sp))" "fst (node (min_loc sp)) = fst (node (max_loc sp))"
    using compare_same_tree [OF between(1)] compare_same_tree [OF between(2)] by simp_all
  have lo: "key (min_loc sp) < key x"
    using compare_less_key [OF nodes(1,3) between(1)] .
  have hi: "key x < key (max_loc sp)"
    using compare_less_key [OF nodes(3,2) between(2)] .
  from previous_then_next [OF nodes(1,2) tree(2) ends(1,3) nodes(3) tree(1) x lo less_imp_le [OF hi]]
  obtain y where "previous w sp x = Inr (Some y)" "nextLoc w sp y = Inr (Some x)" by blast
  moreover
  from next_then_previous [OF nodes(1,2) tree(2) ends(2,4) nodes(3) tree(1) x less_imp_le [OF lo] hi]
  obtain z where "nextLoc w sp x = Inr (Some z)" "previous w sp z = Inr (Some x)" by blast
  ultimately show ?thesis by blast
qed

theorem next_previous_inverse_witness:
  "previous sampleForest sampleSpace \<lparr>node = sDiv, offset = 1\<rparr> =
     Inr (Some \<lparr>node = sSpan, offset = 1\<rparr>) \<and>
   nextLoc sampleForest sampleSpace \<lparr>node = sSpan, offset = 1\<rparr> =
     Inr (Some \<lparr>node = sDiv, offset = 1\<rparr>) \<and>
   nextLoc sampleForest sampleSpace \<lparr>node = sDiv, offset = 1\<rparr> =
     Inr (Some \<lparr>node = sDiv, offset = 2\<rparr>) \<and>
   previous sampleForest sampleSpace \<lparr>node = sDiv, offset = 2\<rparr> =
     Inr (Some \<lparr>node = sDiv, offset = 1\<rparr>)"
proof -
  have h: "normalized sampleForest (min_loc sampleSpace)"
    "normalized sampleForest (max_loc sampleSpace)"
    "contextuallyRelevant sampleForest sampleSpace (node (min_loc sampleSpace))"
    "contextuallyRelevant sampleForest sampleSpace (node (max_loc sampleSpace))"
    "normalized sampleForest \<lparr>node = sDiv, offset = 1\<rparr>"
    "contextuallyRelevant sampleForest sampleSpace (node \<lparr>node = sDiv, offset = 1\<rparr>)"
    "compare sampleForest (min_loc sampleSpace) \<lparr>node = sDiv, offset = 1\<rparr> = Inr (- 1)"
    "compare sampleForest \<lparr>node = sDiv, offset = 1\<rparr> (max_loc sampleSpace) = Inr (- 1)"
    by code_simp+
  have e: "previous sampleForest sampleSpace \<lparr>node = sDiv, offset = 1\<rparr> =
     Inr (Some \<lparr>node = sSpan, offset = 1\<rparr>)"
    "nextLoc sampleForest sampleSpace \<lparr>node = sDiv, offset = 1\<rparr> =
     Inr (Some \<lparr>node = sDiv, offset = 2\<rparr>)"
    by code_simp+
  from next_previous_inverse [OF h] e show ?thesis by auto
qed

section \<open>Stepping at the ends of a space\<close>

text \<open>
  Claim C3 says that, for every space, \<open>next\<close> at the maximum and \<open>previous\<close> at the
  minimum return \<open>null\<close>.  The constructor accepts the space from the start of the
  document into the text \<open>ab\<close> with the \<open>div\<close> irrelevant, since the nodes of both
  endpoints are relevant.  In that space \<open>previous\<close> at the minimum returns \<open>null\<close>,
  but \<open>next\<close> at the maximum fails: the topmost node that \<open>escapeIrrelevantNode\<close>
  collects is the irrelevant \<open>div\<close>, and the source throws the internal error that it
  documents as impossible.
\<close>

theorem next_at_max_internal_error:
  "DOMSpace_new sampleForest \<lparr>node = sDoc, offset = 0\<rparr> \<lparr>node = sAb, offset = 1\<rparr>
     (Some (\<lambda>n. n \<noteq> sDiv)) = Inr hiddenDivSpace \<and>
   collectAncestorsAndSelf sampleForest hiddenDivSpace (Some sAb) [] = Inr [sAb, sSpan, sDiv] \<and>
   \<not> isRelevant sampleForest hiddenDivSpace sDiv \<and>
   escapeIrrelevantNode sampleForest hiddenDivSpace (max_loc hiddenDivSpace) = Inl InternalError \<and>
   nextLoc sampleForest hiddenDivSpace (max_loc hiddenDivSpace) = Inl InternalError \<and>
   previous sampleForest hiddenDivSpace (min_loc hiddenDivSpace) = Inr None"
proof -
  have "compare sampleForest \<lparr>node = sAb, offset = Suc 0\<rparr> \<lparr>node = sDoc, offset = 0\<rparr> = Inr 1"
    by code_simp
  then have "DOMSpace_new sampleForest \<lparr>node = sDoc, offset = 0\<rparr> \<lparr>node = sAb, offset = 1\<rparr>
     (Some (\<lambda>n. n \<noteq> sDiv)) = Inr hiddenDivSpace"
    by (simp add: DOMSpace_new_def sample_nodeType hiddenDivSpace_def)
       (simp add: sample_defs)
  moreover have
    "collectAncestorsAndSelf sampleForest hiddenDivSpace (Some sAb) [] = Inr [sAb, sSpan, sDiv]"
    "\<not> isRelevant sampleForest hiddenDivSpace sDiv"
    "escapeIrrelevantNode sampleForest hiddenDivSpace (max_loc hiddenDivSpace) = Inl InternalError"
    "nextLoc sampleForest hiddenDivSpace (max_loc hiddenDivSpace) = Inl InternalError"
    "previous sampleForest hiddenDivSpace (min_loc hiddenDivSpace) = Inr None"
    by code_simp+
  ultimately show ?thesis by simp
qed

text \<open>
  That internal error is the only way in which the source departs from the claim: for
  every space that the constructor returns, \<open>previous\<close> at the minimum returns \<open>null\<close>,
  and \<open>next\<close> at the maximum returns \<open>null\<close> or fails with the internal error.
\<close>

lemma steps_at_the_ends:
  assumes "DOMSpace_new w mn mx test = Inr sp"
  shows "previous w sp (min_loc sp) = Inr None \<and>
    (nextLoc w sp (max_loc sp) = Inr None \<or> nextLoc w sp (max_loc sp) = Inl InternalError)"
  using previous_min [OF assms] next_max [OF assms] by simp

section \<open>The steps of next\<close>

text \<open>
  Claim C4, amended.  After escaping to a location \<open>(n, off)\<close>, \<open>next\<close> forms a
  candidate and returns it if the space contains it, and \<open>null\<close> otherwise (\<open>clip\<close>).
  In an element, document or document fragment: if there is no child at \<open>off\<close> it
  ascends; if the child at \<open>off\<close> is relevant the candidate is that child at offset
  \<open>0\<close>; if it is irrelevant the candidate is \<open>(n, off + 1)\<close>.  In a text node: if
  \<open>off + 1\<close> is within the length of the text the candidate is \<open>(n, off + 1)\<close>,
  otherwise it ascends.  Ascending from a node without parent returns \<open>null\<close>;
  ascending from the \<open>k\<close>-th child of a node has the candidate \<open>(parent, k + 1)\<close>.
\<close>

theorem next_steps:
  assumes "escapeIrrelevantNode w sp start = Inr r"
  shows "let n = node (deref start r); off = offset (deref start r) in
    (nodeType w n = ELEMENT_NODE \<or> nodeType w n = DOCUMENT_NODE \<or>
     nodeType w n = DOCUMENT_FRAGMENT_NODE \<longrightarrow>
       (length (childNodes w n) \<le> off \<longrightarrow> nextLoc w sp start = ascendAfter w sp n) \<and>
       (off < length (childNodes w n) \<and> isRelevant w sp (childNodes w n ! off) \<longrightarrow>
          nextLoc w sp start = clip w sp \<lparr>node = childNodes w n ! off, offset = 0\<rparr>) \<and>
       (off < length (childNodes w n) \<and> \<not> isRelevant w sp (childNodes w n ! off) \<longrightarrow>
          nextLoc w sp start = clip w sp \<lparr>node = n, offset = off + 1\<rparr>)) \<and>
    (nodeType w n = TEXT_NODE \<longrightarrow>
       (off + 1 \<le> textLength w n \<longrightarrow>
          nextLoc w sp start = clip w sp \<lparr>node = n, offset = off + 1\<rparr>) \<and>
       (textLength w n < off + 1 \<longrightarrow> nextLoc w sp start = ascendAfter w sp n)) \<and>
    (parentNode n = None \<longrightarrow> ascendAfter w sp n = Inr None) \<and>
    (\<forall>t p k. isNode w n \<and> n = (t, p @ [k]) \<longrightarrow>
       ascendAfter w sp n = clip w sp \<lparr>node = (t, p), offset = k + 1\<rparr>)"
  unfolding Let_def
proof (intro conjI allI impI)
  show "parentNode (node (deref start r)) = None \<Longrightarrow>
        ascendAfter w sp (node (deref start r)) = Inr None"
    by (simp add: ascendAfter_def)
next
  fix t p k
  assume h: "isNode w (node (deref start r)) \<and> node (deref start r) = (t, p @ [k])"
  then have "isNode w (t, p @ [k])" by (elim conjE) (erule subst)
  from ascendAfter_child [OF this] h
  show "ascendAfter w sp (node (deref start r)) =
        clip w sp \<lparr>node = (t, p), offset = k + 1\<rparr>"
    by simp
qed (auto simp: nextLoc_unfold [OF assms] Let_def)

text \<open>
  Claim C4, as stated, fails at the boundary of a space: in the space from the start of
  the document to the start of the \<open>div\<close>, at the location \<open>(div, 0)\<close> the child at
  the offset exists and is relevant, and \<open>next\<close> returns \<open>null\<close>, not a location inside
  that child.
\<close>

theorem next_steps_counterexample:
  "DOMSpace_new sampleForest \<lparr>node = sDoc, offset = 0\<rparr> \<lparr>node = sDiv, offset = 0\<rparr> None =
     Inr narrowSpace \<and>
   escapeIrrelevantNode sampleForest narrowSpace \<lparr>node = sDiv, offset = 0\<rparr> = Inr Same \<and>
   nodeType sampleForest sDiv = ELEMENT_NODE \<and>
   item (childNodes sampleForest sDiv) 0 = Some sSpan \<and>
   isRelevant sampleForest narrowSpace sSpan \<and>
   nextLoc sampleForest narrowSpace \<lparr>node = sDiv, offset = 0\<rparr> = Inr None"
proof -
  have "compare sampleForest \<lparr>node = sDiv, offset = 0\<rparr> \<lparr>node = sDoc, offset = 0\<rparr> = Inr 1"
    by (simp add: sample_compare sample_fst sample_isNode sample_snd lexCompare_def)
  then have "DOMSpace_new sampleForest \<lparr>node = sDoc, offset = 0\<rparr> \<lparr>node = sDiv, offset = 0\<rparr> None =
     Inr narrowSpace"
    by (simp add: DOMSpace_new_def sample_nodeType narrowSpace_def)
  moreover have "escapeIrrelevantNode sampleForest narrowSpace \<lparr>node = sDiv, offset = 0\<rparr> = Inr Same"
    by code_simp
  moreover have "item (childNodes sampleForest sDiv) 0 = Some sSpan"
    by code_simp
  moreover have "isRelevant sampleForest narrowSpace sSpan"
    by code_simp
  moreover have "nextLoc sampleForest narrowSpace \<lparr>node = sDiv, offset = 0\<rparr> = Inr None"
    by code_simp
  ultimately show ?thesis by (simp add: sample_nodeType)
qed

theorem next_steps_witness:
  "nextLoc sampleForest sampleSpace \<lparr>node = sDiv, offset = 0\<rparr> =
     Inr (Some \<lparr>node = sSpan, offset = 0\<rparr>) \<and>
   nextLoc sampleForest sampleSpace \<lparr>node = sDiv, offset = 1\<rparr> =
     Inr (Some \<lparr>node = sDiv, offset = 2\<rparr>) \<and>
   nextLoc sampleForest sampleSpace \<lparr>node = sAb, offset = 1\<rparr> =
     Inr (Some \<lparr>node = sAb, offset = 2\<rparr>) \<and>
   nextLoc sampleForest sampleSpace \<lparr>node = sAb, offset = 2\<rparr> =
     Inr (Some \<lparr>node = sSpan, offset = 1\<rparr>) \<and>
   nextLoc sampleForest sampleSpace \<lparr>node = sDoc, offset = 1\<rparr> = Inr None"
proof -
  have esc:
    "escapeIrrelevantNode sampleForest sampleSpace \<lparr>node = sDiv, offset = 0\<rparr> = Inr Same"
    "escapeIrrelevantNode sampleForest sampleSpace \<lparr>node = sDiv, offset = 1\<rparr> = Inr Same"
    "escapeIrrelevantNode sampleForest sampleSpace \<lparr>node = sAb, offset = 1\<rparr> = Inr Same"
    "escapeIrrelevantNode sampleForest sampleSpace \<lparr>node = sAb, offset = 2\<rparr> = Inr Same"
    "escapeIrrelevantNode sampleForest sampleSpace \<lparr>node = sDoc, offset = 1\<rparr> = Inr Same"
    by code_simp+
  have kids: "childNodes sampleForest sDiv = [sSpan, sComment, sCd]"
    "childNodes sampleForest sDoc = [sDiv]"
    by code_simp+
  have rel: "isRelevant sampleForest sampleSpace sSpan"
    "\<not> isRelevant sampleForest sampleSpace sComment"
    by code_simp+
  have len: "textLength sampleForest sAb = 2" by code_simp
  have clips:
    "clip sampleForest sampleSpace \<lparr>node = sSpan, offset = 0\<rparr> = Inr (Some \<lparr>node = sSpan, offset = 0\<rparr>)"
    "clip sampleForest sampleSpace \<lparr>node = sDiv, offset = Suc (Suc 0)\<rparr> =
       Inr (Some \<lparr>node = sDiv, offset = 2\<rparr>)"
    "clip sampleForest sampleSpace \<lparr>node = sAb, offset = Suc (Suc 0)\<rparr> =
       Inr (Some \<lparr>node = sAb, offset = 2\<rparr>)"
    "clip sampleForest sampleSpace \<lparr>node = sSpan, offset = Suc 0\<rparr> =
       Inr (Some \<lparr>node = sSpan, offset = Suc 0\<rparr>)"
    by code_simp+
  have asc: "ascendAfter sampleForest sampleSpace sAb = clip sampleForest sampleSpace \<lparr>node = sSpan, offset = 1\<rparr>"
    "ascendAfter sampleForest sampleSpace sDoc = Inr None"
    by code_simp+
  show ?thesis
    using next_steps [OF esc(1)] next_steps [OF esc(2)] next_steps [OF esc(3)]
      next_steps [OF esc(4)] next_steps [OF esc(5)]
    by (simp add: Let_def sample_nodeType kids rel len clips asc)
qed

section \<open>Escaping irrelevant nodes\<close>

text \<open>
  Claim C5.  If the space does not contain the location, \<open>escapeIrrelevantNode\<close> fails
  with the out-of-scope error.  For a location whose node is a node of the forest the
  \<open>while\<close> loop returns a chain of nodes.  If the space contains the location, the
  location is normalized, its node is relevant and every node of that chain is relevant,
  then the very instance that was passed in is returned.
\<close>

theorem escapeIrrelevantNode_spec:
  "(contains w sp loc = Inr False \<longrightarrow> escapeIrrelevantNode w sp loc = Inl DOMSpaceScopeError) \<and>
   (isNode w (node loc) \<longrightarrow>
      (\<exists>chain. collectAncestorsAndSelf w sp (Some (node loc)) [] = Inr chain)) \<and>
   (\<forall>chain. contains w sp loc = Inr True \<and> isNormalized w loc = Inr True \<and>
      isRelevant w sp (node loc) \<and>
      collectAncestorsAndSelf w sp (Some (node loc)) [] = Inr chain \<and>
      (\<forall>c \<in> set chain. isRelevant w sp c) \<longrightarrow>
        escapeIrrelevantNode w sp loc = Inr Same)"
proof (intro conjI allI impI)
  assume "contains w sp loc = Inr False"
  then show "escapeIrrelevantNode w sp loc = Inl DOMSpaceScopeError"
    by (simp add: escapeIrrelevantNode_def)
next
  assume "isNode w (node loc)"
  then show "\<exists>chain. collectAncestorsAndSelf w sp (Some (node loc)) [] = Inr chain"
    by (intro collect_total) simp
next
  fix chain
  assume h: "contains w sp loc = Inr True \<and> isNormalized w loc = Inr True \<and>
      isRelevant w sp (node loc) \<and>
      collectAncestorsAndSelf w sp (Some (node loc)) [] = Inr chain \<and>
      (\<forall>c \<in> set chain. isRelevant w sp c)"
  then have norm: "normalizeOffset w loc = Inr Same"
    by (simp add: isNormalized_True normalizeOffset_def)
  from h have "scanReversed w sp (item (rev chain) 0) (rev chain) = Inr None"
    by (intro scanReversed_relevant) simp
  with h norm show "escapeIrrelevantNode w sp loc = Inr Same"
    by (simp add: escapeIrrelevantNode_def Let_def)
qed

theorem escapeIrrelevantNode_spec_witness:
  "escapeIrrelevantNode sampleForest sampleSpace \<lparr>node = sAb, offset = 1\<rparr> = Inr Same \<and>
   escapeIrrelevantNode sampleForest sampleSpace \<lparr>node = sXyz, offset = 0\<rparr> =
     Inl DOMSpaceScopeError \<and>
   collectAncestorsAndSelf sampleForest sampleSpace (Some sAb) [] = Inr [sAb, sSpan, sDiv]"
proof -
  have 1: "contains sampleForest sampleSpace \<lparr>node = sXyz, offset = 0\<rparr> = Inr False"
    by code_simp
  have 2: "contains sampleForest sampleSpace \<lparr>node = sAb, offset = 1\<rparr> = Inr True"
    "isNormalized sampleForest \<lparr>node = sAb, offset = 1\<rparr> = Inr True"
    "isRelevant sampleForest sampleSpace sAb"
    "isRelevant sampleForest sampleSpace sSpan"
    "isRelevant sampleForest sampleSpace sDiv"
    by code_simp+
  have 3: "collectAncestorsAndSelf sampleForest sampleSpace (Some sAb) [] = Inr [sAb, sSpan, sDiv]"
    by code_simp
  show ?thesis
    using escapeIrrelevantNode_spec [of sampleForest sampleSpace "\<lparr>node = sXyz, offset = 0\<rparr>"]
      escapeIrrelevantNode_spec [of sampleForest sampleSpace "\<lparr>node = sAb, offset = 1\<rparr>"]
      1 2 3
    by simp
qed

section \<open>Construction of a space\<close>

text \<open>
  The order \<open>locBefore\<close> of locations in nodes of one tree: inside one node it is the
  order of the offsets; a location in an ancestor comes before a location below its child
  \<open>k\<close> exactly when its offset is at most \<open>k\<close>; and between nodes neither of which
  contains the other it is the document order of the nodes.
\<close>

lemma locBefore_document_order:
  assumes "isNode w (node a)" "isNode w (node b)" "fst (node a) = fst (node b)"
  shows "node a = node b \<Longrightarrow> locBefore a b \<longleftrightarrow> offset a < offset b"
    and "snd (node b) = snd (node a) @ k # q \<Longrightarrow> locBefore a b \<longleftrightarrow> offset a \<le> k"
    and "snd (node a) = snd (node b) @ k # q \<Longrightarrow> locBefore a b \<longleftrightarrow> k < offset b"
    and "node a \<noteq> node b \<Longrightarrow> \<not> properAncestor (node a) (node b) \<Longrightarrow>
      \<not> properAncestor (node b) (node a) \<Longrightarrow> locBefore a b \<longleftrightarrow> precedes w (node a) (node b)"
proof -
  show "locBefore a b \<longleftrightarrow> offset a < offset b" if "node a = node b"
    using that by (simp add: locBefore_def key_def)
  show "locBefore a b \<longleftrightarrow> offset a \<le> k" if "snd (node b) = snd (node a) @ k # q"
    using key_less_below [OF that] assms(3) by (simp add: locBefore_def)
  show "locBefore a b \<longleftrightarrow> k < offset b" if "snd (node a) = snd (node b) @ k # q"
    using key_less_above [OF that] assms(3) by (simp add: locBefore_def)
  show "locBefore a b \<longleftrightarrow> precedes w (node a) (node b)"
    if h: "node a \<noteq> node b" "\<not> properAncestor (node a) (node b)"
      "\<not> properAncestor (node b) (node a)"
  proof (cases "snd (node a)" "snd (node b)" rule: path_cases)
    case same
    with h assms(3) show ?thesis by (simp add: prod_eq_iff)
  next
    case (below j r)
    with h assms(3) show ?thesis by (auto simp: properAncestor_iff prod_eq_iff)
  next
    case (above i r)
    with h assms(3) show ?thesis by (auto simp: properAncestor_iff prod_eq_iff)
  next
    case (fork c i j p' q')
    from key_less_fork [OF fork] show ?thesis
      using assms by (simp add: precedes_iff locBefore_def)
  qed
qed

text \<open>
  Claim C6, as stated, fails.  Take the minimum at the start of the \<open>div\<close> of the
  document and the maximum in the text of the detached element.  Both nodes are relevant
  and the maximum does not precede the minimum in document order (the two nodes lie in
  different trees, so neither precedes the other), but the construction does not succeed:
  the comparison of the endpoints fails with the disconnected-nodes error.
\<close>

theorem construction_counterexample:
  "isRelevant sampleForest
     (DOMSpace_init \<lparr>node = sDiv, offset = 0\<rparr> \<lparr>node = sXyz, offset = 1\<rparr> None) sDiv \<and>
   isRelevant sampleForest
     (DOMSpace_init \<lparr>node = sDiv, offset = 0\<rparr> \<lparr>node = sXyz, offset = 1\<rparr> None) sXyz \<and>
   \<not> locBefore \<lparr>node = sXyz, offset = 1\<rparr> \<lparr>node = sDiv, offset = 0\<rparr> \<and>
   \<not> precedes sampleForest sXyz sDiv \<and>
   DOMSpace_new sampleForest \<lparr>node = sDiv, offset = 0\<rparr> \<lparr>node = sXyz, offset = 1\<rparr> None =
     Inl ComparingDisconnectedNodes"
proof -
  have "compare sampleForest \<lparr>node = sXyz, offset = Suc 0\<rparr> \<lparr>node = sDiv, offset = 0\<rparr> =
      Inl ComparingDisconnectedNodes"
    by (simp add: compare_disconnected sample_fst)
  then show ?thesis
    by (simp add: DOMSpace_new_def sample_nodeType locBefore_def precedes_def sample_fst)
qed

text \<open>
  The relevance of the endpoints is tested before their order: with an irrelevant minimum
  and a maximum that precedes it, the constructor fails with the irrelevant-boundary
  error.
\<close>

lemma irrelevant_and_reversed:
  "locBefore \<lparr>node = sDoc, offset = 0\<rparr> \<lparr>node = sDiv, offset = 0\<rparr> \<and>
   DOMSpace_new sampleForest \<lparr>node = sDiv, offset = 0\<rparr> \<lparr>node = sDoc, offset = 0\<rparr>
     (Some (\<lambda>n. n = sDoc)) = Inl CannotEscapeIrrelevantNode"
  by (simp add: locBefore_def key_def sample_fst sample_snd DOMSpace_new_def Let_def)
     (simp add: sample_defs)

text \<open>
  Claim C6, amended.  The constructor fails with the irrelevant-boundary error whenever
  the node of either endpoint is not relevant.  When both are relevant and the endpoints
  lie in nodes of one tree, the constructor fails with the reversed-range error whenever
  the maximum precedes the minimum in document order, and succeeds with the space of the
  given endpoints and test whenever the maximum does not precede the minimum.
\<close>

theorem construction_outcomes:
  "(\<not> isRelevant w (DOMSpace_init mn mx test) (node mn) \<or>
    \<not> isRelevant w (DOMSpace_init mn mx test) (node mx) \<longrightarrow>
      DOMSpace_new w mn mx test = Inl CannotEscapeIrrelevantNode) \<and>
   (isRelevant w (DOMSpace_init mn mx test) (node mn) \<and>
    isRelevant w (DOMSpace_init mn mx test) (node mx) \<and>
    fst (node mn) = fst (node mx) \<longrightarrow>
      (locBefore mx mn \<longrightarrow> DOMSpace_new w mn mx test = Inl ReversedRangeError) \<and>
      (\<not> locBefore mx mn \<longrightarrow>
         DOMSpace_new w mn mx test = Inr (DOMSpace_init mn mx test)))"
proof (intro conjI impI)
  assume "\<not> isRelevant w (DOMSpace_init mn mx test) (node mn) \<or>
    \<not> isRelevant w (DOMSpace_init mn mx test) (node mx)"
  then show "DOMSpace_new w mn mx test = Inl CannotEscapeIrrelevantNode"
    by (auto simp: DOMSpace_new_def Let_def)
next
  assume h: "isRelevant w (DOMSpace_init mn mx test) (node mn) \<and>
    isRelevant w (DOMSpace_init mn mx test) (node mx) \<and> fst (node mn) = fst (node mx)"
  then have "isNode w (node mx)" "isNode w (node mn)"
    by (blast intro: isRelevant_isNode)+
  with h have c: "compare w mx mn = Inr (lexCompare (key mx) (key mn))"
    by (intro compare_lex) simp_all
  {
    assume "locBefore mx mn"
    then have "lexCompare (key mx) (key mn) < 0" by (simp add: locBefore_def)
    with h c show "DOMSpace_new w mn mx test = Inl ReversedRangeError"
      by (simp add: DOMSpace_new_def Let_def del: isRelevant_init)
  next
    assume "\<not> locBefore mx mn"
    with h have "\<not> lexCompare (key mx) (key mn) < 0" by (simp add: locBefore_def)
    with h c show "DOMSpace_new w mn mx test = Inr (DOMSpace_init mn mx test)"
      by (simp add: DOMSpace_new_def Let_def del: isRelevant_init)
  }
qed

theorem construction_outcomes_witness:
  "DOMSpace_new sampleForest \<lparr>node = sDoc, offset = 0\<rparr> \<lparr>node = sComment, offset = 0\<rparr> None =
     Inl CannotEscapeIrrelevantNode \<and>
   DOMSpace_new sampleForest \<lparr>node = sDiv, offset = 0\<rparr> \<lparr>node = sDoc, offset = 0\<rparr> None =
     Inl ReversedRangeError \<and>
   DOMSpace_new sampleForest \<lparr>node = sDoc, offset = 0\<rparr> \<lparr>node = sDoc, offset = 1\<rparr> None =
     Inr (DOMSpace_init \<lparr>node = sDoc, offset = 0\<rparr> \<lparr>node = sDoc, offset = 1\<rparr> None)"
proof -
  have "locBefore \<lparr>node = sDoc, offset = 0\<rparr> \<lparr>node = sDiv, offset = 0\<rparr>"
    "\<not> locBefore \<lparr>node = sDoc, offset = 1\<rparr> \<lparr>node = sDoc, offset = 0\<rparr>"
    by (simp_all add: locBefore_def key_def sample_fst sample_snd)
  then show ?thesis
    using construction_outcomes
      [of sampleForest "\<lparr>node = sDoc, offset = 0\<rparr>" "\<lparr>node = sComment, offset = 0\<rparr>" None]
      construction_outcomes
      [of sampleForest "\<lparr>node = sDiv, offset = 0\<rparr>" "\<lparr>node = sDoc, offset = 0\<rparr>" None]
      construction_outcomes
      [of sampleForest "\<lparr>node = sDoc, offset = 0\<rparr>" "\<lparr>node = sDoc, offset = 1\<rparr>" None]
    by (simp add: sample_nodeType sample_fst)
qed

section \<open>Containment of locations\<close>

text \<open>
  Claim C7.  \<open>contains\<close> returns true exactly when the comparison of the minimum with
  the location returns a value \<open>\<le> 0\<close> and the comparison of the maximum with the
  location returns a value \<open>\<ge> 0\<close>; when both comparisons return, \<open>contains\<close> returns
  the truth value of that condition; and when a comparison that \<open>contains\<close> makes fails
  with the disconnected-nodes error, \<open>contains\<close> returns false instead of failing.
\<close>

theorem contains_spec:
  "(contains w sp loc = Inr True \<longleftrightarrow>
      (\<exists>a b. compare w (min_loc sp) loc = Inr a \<and> a \<le> 0 \<and>
             compare w (max_loc sp) loc = Inr b \<and> 0 \<le> b)) \<and>
   (\<forall>a b. compare w (min_loc sp) loc = Inr a \<and> compare w (max_loc sp) loc = Inr b \<longrightarrow>
      contains w sp loc = Inr (a \<le> 0 \<and> 0 \<le> b)) \<and>
   (compare w (min_loc sp) loc = Inl ComparingDisconnectedNodes \<longrightarrow>
      contains w sp loc = Inr False) \<and>
   (\<forall>a. compare w (min_loc sp) loc = Inr a \<and> a \<le> 0 \<and>
        compare w (max_loc sp) loc = Inl ComparingDisconnectedNodes \<longrightarrow>
      contains w sp loc = Inr False)"
proof -
  have "contains w sp loc = Inr True \<longleftrightarrow>
      (\<exists>a b. compare w (min_loc sp) loc = Inr a \<and> a \<le> 0 \<and>
             compare w (max_loc sp) loc = Inr b \<and> 0 \<le> b)"
    by (cases "compare w (min_loc sp) loc"; cases "compare w (max_loc sp) loc")
       (auto simp: contains_def)
  moreover have "\<forall>a b. compare w (min_loc sp) loc = Inr a \<and> compare w (max_loc sp) loc = Inr b \<longrightarrow>
      contains w sp loc = Inr (a \<le> 0 \<and> 0 \<le> b)"
    by (auto simp: contains_def)
  moreover have "compare w (min_loc sp) loc = Inl ComparingDisconnectedNodes \<longrightarrow>
      contains w sp loc = Inr False"
    by (simp add: contains_def)
  moreover have "\<forall>a. compare w (min_loc sp) loc = Inr a \<and> a \<le> 0 \<and>
        compare w (max_loc sp) loc = Inl ComparingDisconnectedNodes \<longrightarrow>
      contains w sp loc = Inr False"
    by (simp add: contains_def)
  ultimately show ?thesis by blast
qed

theorem contains_spec_witness:
  "contains sampleForest sampleSpace \<lparr>node = sCd, offset = 1\<rparr> = Inr True \<and>
   contains sampleForest sampleSpace \<lparr>node = sDoc, offset = 2\<rparr> = Inr False \<and>
   contains sampleForest sampleSpace \<lparr>node = sXyz, offset = 1\<rparr> = Inr False"
proof -
  have 1: "compare sampleForest (min_loc sampleSpace) \<lparr>node = sCd, offset = 1\<rparr> = Inr (- 1)"
    "compare sampleForest (max_loc sampleSpace) \<lparr>node = sCd, offset = 1\<rparr> = Inr 1"
    "compare sampleForest (min_loc sampleSpace) \<lparr>node = sDoc, offset = 2\<rparr> = Inr (- 1)"
    "compare sampleForest (max_loc sampleSpace) \<lparr>node = sDoc, offset = 2\<rparr> = Inr (- 1)"
    by (simp_all add: sampleSpace_def sample_compare sample_fst sample_isNode sample_snd lexCompare_def)
  have 2: "compare sampleForest (min_loc sampleSpace) \<lparr>node = sXyz, offset = 1\<rparr> =
            Inl ComparingDisconnectedNodes"
    by (simp add: compare_disconnected sampleSpace_def sample_fst)
  show ?thesis
    using contains_spec [of sampleForest sampleSpace "\<lparr>node = sCd, offset = 1\<rparr>"]
      contains_spec [of sampleForest sampleSpace "\<lparr>node = sDoc, offset = 2\<rparr>"]
      contains_spec [of sampleForest sampleSpace "\<lparr>node = sXyz, offset = 1\<rparr>"] 1 2
    by simp
qed

section \<open>Normalization of offsets\<close>

text \<open>
  Claim C8.  For every node and every offset \<open>off \<ge> 0\<close> the constructor yields the
  location \<open>(n, off)\<close>.  If the node is of a supported kind, its normalized offset is
  the minimum of the offset and the bound of the node; \<open>normalizeOffset\<close> returns a
  location at that offset in the same node, returns the very instance it was called on
  exactly when the location was already normalized, and normalizing its result once more
  changes nothing and returns that result itself.  If the node is of any other kind,
  \<open>normalizedOffset\<close>, \<open>isNormalized\<close> and \<open>normalizeOffset\<close> all fail with the
  unsupported-node-type error.
\<close>

theorem normalization_clamps:
  assumes "0 \<le> off"
  shows "\<exists>loc. DOMLoc_new n off = Inr loc \<and> node loc = n \<and> int (offset loc) = off \<and>
     (if nodeType w n = OTHER_NODE then
        normalizedOffset w loc = Inl UnsupportedNodeType \<and>
        isNormalized w loc = Inl UnsupportedNodeType \<and>
        normalizeOffset w loc = Inl UnsupportedNodeType
      else
        normalizedOffset w loc = Inr (min (offset loc) (bound w n)) \<and>
        (\<exists>r. normalizeOffset w loc = Inr r \<and>
             node (deref loc r) = n \<and>
             offset (deref loc r) = min (offset loc) (bound w n) \<and>
             (r = Same \<longleftrightarrow> isNormalized w loc = Inr True) \<and>
             normalizedOffset w (deref loc r) = Inr (offset (deref loc r)) \<and>
             normalizeOffset w (deref loc r) = Inr Same))"
proof -
  define loc where "loc = \<lparr>node = n, offset = nat off\<rparr>"
  have new: "DOMLoc_new n off = Inr loc"
    using assms by (simp add: DOMLoc_new_def loc_def)
  have flds: "node loc = n" "int (offset loc) = off"
    using assms by (simp_all add: loc_def)
  show ?thesis
  proof (cases "nodeType w n = OTHER_NODE")
    case True
    then have "normalizedOffset w loc = Inl UnsupportedNodeType"
      by (simp add: normalizedOffset_other flds)
    then show ?thesis
      using True new flds by (simp add: isNormalized_def normalizeOffset_def)
  next
    case False
    then have sup: "nodeType w (node loc) \<noteq> OTHER_NODE" by (simp add: flds)
    let ?r = "if offset loc \<le> bound w n then Same
              else Fresh \<lparr>node = n, offset = bound w n\<rparr>"
    have 1: "normalizedOffset w loc = Inr (min (offset loc) (bound w n))"
      using normalizedOffset_supported [OF sup] by (simp add: flds)
    have 2: "normalizeOffset w loc = Inr ?r"
      using normalizeOffset_supported [OF sup] by (simp add: flds)
    have 3: "node (deref loc ?r) = n" "offset (deref loc ?r) = min (offset loc) (bound w n)"
      by (simp_all add: flds min_def)
    have 4: "?r = Same \<longleftrightarrow> isNormalized w loc = Inr True"
      by (auto simp: isNormalized_def 1 min_def)
    have sup': "nodeType w (node (deref loc ?r)) \<noteq> OTHER_NODE"
      using False 3 by simp
    have 5: "normalizedOffset w (deref loc ?r) = Inr (offset (deref loc ?r))"
      using normalizedOffset_supported [OF sup'] 3 by simp
    have 6: "normalizeOffset w (deref loc ?r) = Inr Same"
      using normalizeOffset_supported [OF sup'] 3 by simp
    show ?thesis
      using False new flds 1 2 3 4 5 6 by (intro exI [of _ loc]) simp
  qed
qed

theorem normalization_clamps_witness:
  "(0::int) \<le> 300 \<and>
   normalizedOffset sampleForest \<lparr>node = sAb, offset = 300\<rparr> = Inr 2 \<and>
   (\<exists>r. normalizeOffset sampleForest \<lparr>node = sAb, offset = 300\<rparr> = Inr r \<and>
        deref \<lparr>node = sAb, offset = 300\<rparr> r = \<lparr>node = sAb, offset = 2\<rparr>) \<and>
   normalizeOffset sampleForest \<lparr>node = sAb, offset = 2\<rparr> = Inr Same \<and>
   normalizedOffset sampleForest \<lparr>node = sComment, offset = 300\<rparr> = Inl UnsupportedNodeType"
  using normalization_clamps [of 300 sAb sampleForest]
    normalization_clamps [of 2 sAb sampleForest]
    normalization_clamps [of 300 sComment sampleForest]
  by (auto simp: DOMLoc_new_def sample_nodeType sample_bound isNormalized_def
      intro: DOMLoc.equality)

section \<open>Construction across trees\<close>

text \<open>
  Claim C9.  When both endpoint nodes are relevant and the two endpoints lie in different
  trees, the constructor fails with the disconnected-nodes error of the comparison of the
  maximum with the minimum.
\<close>

theorem construction_disconnected:
  assumes "isRelevant w (DOMSpace_init mn mx test) (node mn)"
    and "isRelevant w (DOMSpace_init mn mx test) (node mx)"
    and "fst (node mn) \<noteq> fst (node mx)"
  shows "DOMSpace_new w mn mx test = Inl ComparingDisconnectedNodes"
proof -
  have "compare w mx mn = Inl ComparingDisconnectedNodes"
    using assms(3) by (intro compare_disconnected) simp
  with assms(1,2) show ?thesis
    by (simp add: DOMSpace_new_def Let_def)
qed

theorem construction_disconnected_witness:
  "DOMSpace_new sampleForest \<lparr>node = sDoc, offset = 0\<rparr> \<lparr>node = sP, offset = 1\<rparr> None =
     Inl ComparingDisconnectedNodes"
  using construction_disconnected
    [of sampleForest "\<lparr>node = sDoc, offset = 0\<rparr>" "\<lparr>node = sP, offset = 1\<rparr>" None]
  by (simp add: sample_nodeType sample_fst)

section \<open>Containment of nodes\<close>

text \<open>
  Claim C10, as stated, fails.  A location may have any offset, and the space that
  \<open>makeSpanningNode\<close> builds on a node ends at the number of children of the node.  The
  space spanning the document, which has one child, does not contain the location at
  offset 2 of the document.  The space spanning a text node \<open>xyz\<close> without parent goes
  from offset 0 to offset 0 (a text node has no children), and does not contain the
  location at offset 2 of the text, which is a normalized location.
\<close>

theorem containsNode_parentless_counterexample:
  "parentNode sDoc = None \<and>
   makeSpanningNode sampleForest sDoc None = Inr sampleSpace \<and>
   containsNode sampleForest sampleSpace sDoc = Inr False \<and>
   contains sampleForest sampleSpace \<lparr>node = sDoc, offset = 2\<rparr> = Inr False \<and>
   parentNode sLone = None \<and>
   makeSpanningNode loneText sLone None =
     Inr (DOMSpace_init \<lparr>node = sLone, offset = 0\<rparr> \<lparr>node = sLone, offset = 0\<rparr> None) \<and>
   isNormalized loneText \<lparr>node = sLone, offset = 2\<rparr> = Inr True \<and>
   contains loneText
     (DOMSpace_init \<lparr>node = sLone, offset = 0\<rparr> \<lparr>node = sLone, offset = 0\<rparr> None)
     \<lparr>node = sLone, offset = 2\<rparr> = Inr False"
proof -
  have 1: "parentNode sDoc = None" "parentNode sLone = None"
    by (simp_all add: sDoc_def sLone_def)
  have 2: "makeSpanningNode sampleForest sDoc None = Inr sampleSpace"
    by (simp add: makeSpanningNode_def DOMLoc_new_def DOMSpace_new_def sample_nodeType
        sampleSpace_def compare_def equals_def)
      (simp add: childNodes_def lookup_def sample_defs)
  have 3: "containsNode sampleForest sampleSpace sDoc = Inr False"
    using 1(1) by (rule containsNode_root)
  have 4: "contains sampleForest sampleSpace \<lparr>node = sDoc, offset = 2\<rparr> = Inr False"
    by (simp add: contains_same_node sampleSpace_def)
  have 5: "nodeType loneText sLone = TEXT_NODE" "childNodes loneText sLone = []"
    "textLength loneText sLone = 3"
    by (simp_all add: nodeType_def childNodes_def textLength_def lookup_def loneText_def
        sLone_def)
  have 6: "makeSpanningNode loneText sLone None =
     Inr (DOMSpace_init \<lparr>node = sLone, offset = 0\<rparr> \<lparr>node = sLone, offset = 0\<rparr> None)"
    by (simp add: makeSpanningNode_def DOMLoc_new_def DOMSpace_new_def 5 compare_def
        equals_def)
  have 7: "isNormalized loneText \<lparr>node = sLone, offset = 2\<rparr> = Inr True"
    by (simp add: isNormalized_def normalizedOffset_def 5)
  have 8: "contains loneText
     (DOMSpace_init \<lparr>node = sLone, offset = 0\<rparr> \<lparr>node = sLone, offset = 0\<rparr> None)
     \<lparr>node = sLone, offset = 2\<rparr> = Inr False"
    by (simp add: contains_same_node)
  show ?thesis using 1 2 3 4 6 7 8 by blast
qed

text \<open>
  Claim C10, amended.  \<open>containsNode\<close> returns false for every node without parent, in
  every space.  In particular, for the space that \<open>makeSpanningNode\<close> builds on such a
  node, \<open>containsNode\<close> of that node is false although the space contains every location
  in the node whose offset is at most the number of children of the node (and no other
  location in the node), and every location in any other node of its tree.
\<close>

theorem containsNode_parentless:
  assumes "parentNode n = None"
  shows "containsNode w sp n = Inr False \<and>
    (\<forall>sp'. makeSpanningNode w n test = Inr sp' \<longrightarrow>
       containsNode w sp' n = Inr False \<and>
       (\<forall>off. contains w sp' \<lparr>node = n, offset = off\<rparr> =
          Inr (off \<le> length (childNodes w n))) \<and>
       (\<forall>m off. isNode w m \<and> fst m = fst n \<and> m \<noteq> n \<longrightarrow>
          contains w sp' \<lparr>node = m, offset = off\<rparr> = Inr True))"
proof (intro conjI allI impI)
  show "containsNode w sp n = Inr False"
    using assms by (rule containsNode_root)
next
  fix sp' assume "makeSpanningNode w n test = Inr sp'"
  show "containsNode w sp' n = Inr False"
    using assms by (rule containsNode_root)
next
  fix sp' off
  assume sp': "makeSpanningNode w n test = Inr sp'"
  from makeSpanningNode_eq(1) [OF sp']
  show "contains w sp' \<lparr>node = n, offset = off\<rparr> = Inr (off \<le> length (childNodes w n))"
    by (simp add: contains_same_node)
next
  fix sp' m off
  assume sp': "makeSpanningNode w n test = Inr sp'"
    and m: "isNode w m \<and> fst m = fst n \<and> m \<noteq> n"
  note eq = makeSpanningNode_eq(1) [OF sp']
  have n: "isNode w n" using makeSpanningNode_eq(2) [OF sp'] by (rule isRelevant_isNode)
  from assms have root: "snd n = []" by (simp add: parentNode_eq_None)
  with m obtain j q where q: "snd m = j # q" by (cases "snd m") (auto simp: prod_eq_iff)
  then have "m = (fst n, [] @ j # q)" using m by (simp add: prod_eq_iff)
  with m have "j < length (childNodes w (fst n, []))"
    using isNode_child(2) [of w "fst n" "[]" j q] by simp
  then have j: "j < length (childNodes w n)" using root by (cases n) simp
  have "contains w sp' \<lparr>node = m, offset = off\<rparr> =
     Inr (key (min_loc sp') \<le> key \<lparr>node = m, offset = off\<rparr> \<and>
          key \<lparr>node = m, offset = off\<rparr> \<le> key (max_loc sp'))"
    using n m by (intro contains_lex) (simp_all add: eq)
  then show "contains w sp' \<lparr>node = m, offset = off\<rparr> = Inr True"
    using j root q by (auto simp: eq key_def list_le_def)
qed

theorem containsNode_parentless_witness:
  "containsNode sampleForest sampleSpace sDoc = Inr False \<and>
   contains sampleForest sampleSpace \<lparr>node = sDoc, offset = 1\<rparr> = Inr True \<and>
   contains sampleForest sampleSpace \<lparr>node = sDoc, offset = 5\<rparr> = Inr False \<and>
   contains sampleForest sampleSpace \<lparr>node = sCd, offset = 7\<rparr> = Inr True"
proof -
  have 1: "parentNode sDoc = None" by (simp add: sDoc_def)
  have 2: "makeSpanningNode sampleForest sDoc None = Inr sampleSpace"
    by (simp add: makeSpanningNode_def DOMLoc_new_def DOMSpace_new_def sample_nodeType
        sampleSpace_def compare_def equals_def)
      (simp add: childNodes_def lookup_def sample_defs)
  have 3: "length (childNodes sampleForest sDoc) = 1"
    by (simp add: childNodes_def lookup_def sample_defs)
  have 4: "isNode sampleForest sCd" "fst sCd = fst sDoc" "sCd \<noteq> sDoc"
    by (simp_all add: sample_isNode sample_fst) (simp add: sample_defs)
  from containsNode_parentless [OF 1, of sampleForest sampleSpace None] 2
  have a: "containsNode sampleForest sampleSpace sDoc = Inr False"
    and b: "\<And>off. contains sampleForest sampleSpace \<lparr>node = sDoc, offset = off\<rparr> =
          Inr (off \<le> length (childNodes sampleForest sDoc))"
    and c: "\<And>m off. isNode sampleForest m \<Longrightarrow> fst m = fst sDoc \<Longrightarrow> m \<noteq> sDoc \<Longrightarrow>
          contains sampleForest sampleSpace \<lparr>node = m, offset = off\<rparr> = Inr True"
    by blast+
  show ?thesis
    using a b [of 1] b [of 5] c [OF 4, of 7] by (simp add: 3)
qed

end
